theory Spec2Isabelle
  imports Main "HOL-Library.Word" "HOL-Library.Sublist"
begin

unbundle bit_operations_syntax

section \<open>Strings\<close>

text \<open>
  JavaScript strings are modelled as \<^typ>\<open>string\<close>: each \<^typ>\<open>char\<close> is one code unit in the
  range 0..255 (Latin-1).  On that range \<open>String.prototype.toLowerCase\<close> maps \<open>A..Z\<close> and the
  accented capitals 192..222 (without the multiplication sign 215) to the code unit 32 above, and
  \<open>String.prototype.trim\<close> removes TAB, LF, VT, FF, CR, SPACE and NBSP at both ends.
\<close>

definition lowerChar :: "char \<Rightarrow> char" where
  "lowerChar c =
     (let n = (of_char c :: nat)
      in if (65 \<le> n \<and> n \<le> 90) \<or> (192 \<le> n \<and> n \<le> 222 \<and> n \<noteq> 215)
         then char_of (n + 32) else c)"

definition toLowerCase :: "string \<Rightarrow> string" where
  "toLowerCase s = map lowerChar s"

definition isWhiteSpace :: "char \<Rightarrow> bool" where
  "isWhiteSpace c = ((of_char c :: nat) \<in> {9, 10, 11, 12, 13, 32, 160})"

definition trim :: "string \<Rightarrow> string" where
  "trim s = rev (dropWhile isWhiteSpace (rev (dropWhile isWhiteSpace s)))"

text \<open>\<open>s.includes(sub)\<close>: \<open>sub\<close> occurs in \<open>s\<close> as a contiguous run.\<close>

fun includesStr :: "string \<Rightarrow> string \<Rightarrow> bool" where
  "includesStr [] sub = (sub = [])"
| "includesStr (c # cs) sub = (prefix sub (c # cs) \<or> includesStr cs sub)"

section \<open>hashKey\<close>

text \<open>
  \<^verbatim>\<open>hash = ((hash << 5) + hash) + s.charCodeAt(i); hash = hash | 0;\<close> keeps \<open>hash\<close> in 32 bits:
  \<open>| 0\<close> reduces the sum modulo \<open>2^32\<close>, and so does the addition of 32-bit words.  The final
  \<open>hash >>> 0\<close> reads the 32 bits as an unsigned number.
\<close>

definition hashStep :: "32 word \<Rightarrow> char \<Rightarrow> 32 word" where
  "hashStep hash c = (push_bit 5 hash + hash) + of_nat (of_char c)"

definition hashKey :: "string \<Rightarrow> nat" where
  "hashKey s = unat (foldl hashStep 5381 s)"

section \<open>Participants and configuration\<close>

record participant =
  rowIndex :: nat
  nama :: string
  email :: string
  folderId :: string
  isShared :: string
  isFolderExists :: string
  lastLog :: string

text \<open>
  The values \<open>processParticipants\<close> reads from the configuration store, the environment and the
  constructor: \<open>parentFolderId\<close> and \<open>dryRun\<close> as stored, \<open>throttleMs\<close> and \<open>maxPerRunConf\<close> as the
  numbers \<open>Number(config.get(...))\<close> yields, \<open>envMax\<close> the number in \<open>MAX_PER_RUN\<close> when it is set
  and finite, \<open>shardTotal\<close> and \<open>shardIndex\<close> the fields the constructor fills (0 when unset).
  Numbers are integers.
\<close>

record config =
  parentFolderId :: string
  dryRun :: bool
  throttleMs :: int
  maxPerRunConf :: int
  envMax :: "int option"
  shardTotal :: int
  shardIndex :: int

definition throttleMsOf :: "config \<Rightarrow> int" where
  "throttleMsOf cfg = (if throttleMs cfg = 0 then 2500 else throttleMs cfg)"

definition maxPerRun :: "config \<Rightarrow> int" where
  "maxPerRun cfg =
     (case envMax cfg of
        Some m \<Rightarrow> if m > 0 then m else (if maxPerRunConf cfg = 0 then 300 else maxPerRunConf cfg)
      | None \<Rightarrow> (if maxPerRunConf cfg = 0 then 300 else maxPerRunConf cfg))"

text \<open>\<open>xs.slice(0, m)\<close>: the first \<open>m\<close> elements, and all but the last \<open>-m\<close> when \<open>m\<close> is negative.\<close>

definition slice0 :: "int \<Rightarrow> 'a list \<Rightarrow> 'a list" where
  "slice0 m xs = (if m \<ge> 0 then take (nat m) xs else take (length xs - nat (- m)) xs)"

subsection \<open>Normalisation, the filter on isShared, sharding, the batch limit\<close>

definition normalizeOne :: "participant \<Rightarrow> participant" where
  "normalizeOne p = p\<lparr>nama := trim (nama p), email := toLowerCase (trim (email p))\<rparr>"

definition normalize :: "participant list \<Rightarrow> participant list" where
  "normalize ps = filter (\<lambda>p. nama p \<noteq> [] \<and> email p \<noteq> []) (map normalizeOne ps)"

definition markedShared :: "participant \<Rightarrow> bool" where
  "markedShared p = (toLowerCase (isShared p) = ''true'')"

definition unshared :: "participant list \<Rightarrow> participant list" where
  "unshared ps = filter (\<lambda>p. \<not> markedShared p) ps"

definition shardKey :: "participant \<Rightarrow> string" where
  "shardKey p = (if folderId p \<noteq> [] then folderId p else toLowerCase (nama p))"

definition assignedShard :: "int \<Rightarrow> participant \<Rightarrow> int" where
  "assignedShard n p = int (hashKey (shardKey p)) mod n"

definition shardFilter :: "int \<Rightarrow> int \<Rightarrow> participant list \<Rightarrow> participant list" where
  "shardFilter n i ps = filter (\<lambda>p. assignedShard n p = i) ps"

definition sharded :: "config \<Rightarrow> participant list \<Rightarrow> participant list" where
  "sharded cfg ps =
     (if shardTotal cfg > 0 then shardFilter (shardTotal cfg) (shardIndex cfg) ps else ps)"

definition workingParticipants :: "config \<Rightarrow> participant list \<Rightarrow> participant list" where
  "workingParticipants cfg ps = slice0 (maxPerRun cfg) (sharded cfg (unshared (normalize ps)))"


section \<open>The provider, the clock and the observable events\<close>

text \<open>
  An error object, reduced to what the code reads from it: the status
  (\<open>error.response.status || error.code\<close>, \<open>None\<close> when neither is a number), the reasons of
  \<open>error.response.data.error.errors\<close>, and the message.
\<close>

record apierror =
  status :: "nat option"
  reasons :: "string list"
  message :: string

record folder =
  folder_id :: string
  folder_name :: string

record page =
  files :: "folder list"
  nextPageToken :: string

record permission =
  emailAddress :: string
  role :: string

text \<open>The two queries of \<open>drive.files.list\<close>: by name (global search), and the children of a folder
  with a page token (the empty token is \<open>undefined\<close>).\<close>

datatype query = NameContains string | ChildrenOf string string

datatype errctx = CtxQuery query | CtxPermission string string string

text \<open>An error after \<open>wrapError(op, ctx, error)\<close>.\<close>

record wrapped =
  wop :: string
  wctx :: errctx
  werr :: apierror

text \<open>The text written to a LastLog cell: \<open>Log ts msg\<close> is the line \<open>[ts] msg\<close>.\<close>

datatype logmsg =
    SkipInvalidEmail string
  | SkipDuplicate
  | SkipAlreadyShared
  | FolderNotFound string
  | SkipAlreadyHas string
  | Done string string string
  | ErrorLog wrapped

datatype cell = Text string | Log int logmsg

text \<open>
  The environment of one run.  Every response is a function of the number of earlier calls of the
  same kind, so that any sequence of answers, failures, clock readings and random draws is an
  environment: \<open>filesList\<close>, \<open>permissionsList\<close> and \<open>permissionsCreate\<close> are indexed by the number of
  Drive calls made so far, \<open>valuesUpdate\<close> by the number of Sheets calls, \<open>dateNow\<close> by the number
  of clock readings and \<open>mathRandom\<close> by the number of draws.  \<open>Math.floor(Math.random() * k)\<close> is
  \<open>mathRandom env i mod k\<close>.
\<close>

record env =
  filesList :: "nat \<Rightarrow> query \<Rightarrow> apierror + page"
  permissionsList :: "nat \<Rightarrow> string \<Rightarrow> apierror + permission list"
  permissionsCreate :: "nat \<Rightarrow> string \<Rightarrow> string \<Rightarrow> apierror + permission"
  valuesUpdate :: "nat \<Rightarrow> string \<Rightarrow> nat \<Rightarrow> cell \<Rightarrow> apierror + unit"
  dateNow :: "nat \<Rightarrow> int"
  mathRandom :: "nat \<Rightarrow> nat"

record state =
  lastApiCallAt :: int
  nDrive :: nat
  nSheets :: nat
  nNow :: nat
  nRandom :: nat

text \<open>
  What a run does to the outside, in order.  A \<open>Sleep\<close> carries the place that called
  \<open>this.sleep\<close>.  Console output, the progress bar and the local log file are not recorded,
  but for the warning of \<open>updateCell\<close>.  Every function below that acts on the outside takes
  the state and returns its result, the new state and the list of the events it caused.
\<close>

datatype sleeper = Throttle | Backoff | SoftWait | Steady

datatype event =
    Sleep sleeper int
  | FilesList query
  | PermissionsList string
  | PermissionsCreate string string string
  | ValuesUpdate string nat cell
  | Warning string nat

subsection \<open>throttle, isRetryableRateLimit, getCurrentTimestamp\<close>

definition throttle :: "env \<Rightarrow> config \<Rightarrow> state \<Rightarrow> state \<times> event list" where
  "throttle env cfg st =
     (let minDelay = throttleMsOf cfg;
          now = dateNow env (nNow st);
          st1 = st\<lparr>nNow := nNow st + 1\<rparr>;
          elapsed = now - lastApiCallAt st;
          (st2, evs) =
            (if elapsed < minDelay
             then (st1\<lparr>nRandom := nRandom st1 + 1\<rparr>,
                   [Sleep Throttle (minDelay - elapsed + int (mathRandom env (nRandom st1) mod 400))])
             else (st1, []))
      in (st2\<lparr>lastApiCallAt := dateNow env (nNow st2), nNow := nNow st2 + 1\<rparr>, evs))"

definition isRetryableRateLimit :: "apierror \<Rightarrow> bool" where
  "isRetryableRateLimit err =
     (let reason = (case reasons err of [] \<Rightarrow> [] | r # _ \<Rightarrow> r)
      in if status err = Some 429 then True
         else if status err = Some 403 then
           includesStr reason ''rateLimitExceeded'' \<or>
           includesStr reason ''userRateLimitExceeded'' \<or>
           includesStr reason ''sharingRateLimitExceeded''
         else False)"

definition getCurrentTimestamp :: "env \<Rightarrow> state \<Rightarrow> int \<times> state" where
  "getCurrentTimestamp env st = (dateNow env (nNow st), st\<lparr>nNow := nNow st + 1\<rparr>)"

subsection \<open>The retry loop\<close>

text \<open>
  \<open>findFolderByName\<close> (global search), \<open>hasPermission\<close> and \<open>grantPermission\<close> each write out the
  same loop: throttle, call, and on an error count the attempt, sleep and try again when the error
  is a rate limit and \<open>attempt < maxAttempts\<close>, else give the error up to \<open>wrapError\<close> and
  \<open>throw\<close>, which each of the three operations below adds with its own name and context.  \<open>resp\<close> is the provider's answer to the call as a function of the Drive call number,
  \<open>ev\<close> the event of the call.
\<close>

definition backoffMs :: "nat \<Rightarrow> int" where
  "backoffMs attempt = min 60000 (2 ^ attempt * 1000)"

function withRetry ::
  "env \<Rightarrow> config \<Rightarrow> nat \<Rightarrow> (nat \<Rightarrow> apierror + 'a) \<Rightarrow> event \<Rightarrow> nat \<Rightarrow> state
     \<Rightarrow> (apierror + 'a) \<times> state \<times> event list" where
  "withRetry env cfg maxAttempts resp ev attempt st =
     (let (st1, e1) = throttle env cfg st;
          r = resp (nDrive st1);
          st2 = st1\<lparr>nDrive := nDrive st1 + 1\<rparr>
      in case r of
           Inr v \<Rightarrow> (Inr v, st2, e1 @ [ev])
         | Inl err \<Rightarrow>
             if isRetryableRateLimit err \<and> attempt + 1 < maxAttempts then
               (let jitter = int (mathRandom env (nRandom st2) mod 500);
                    st3 = st2\<lparr>nRandom := nRandom st2 + 1\<rparr>;
                    (r', st4, e2) = withRetry env cfg maxAttempts resp ev (attempt + 1) st3
                in (r', st4, e1 @ [ev, Sleep Backoff (backoffMs (attempt + 1) + jitter)] @ e2))
             else (Inl err, st2, e1 @ [ev]))"
  by pat_completeness auto
termination
  by (relation "measure (\<lambda>(env, cfg, maxAttempts, resp, ev, attempt, st). maxAttempts - attempt)") auto


declare withRetry.simps [simp del]

subsection \<open>findFolderByName\<close>

text \<open>Events emitted before a computation that may not return.\<close>

definition emit :: "event list \<Rightarrow> ('a \<times> state \<times> event list) option \<Rightarrow> ('a \<times> state \<times> event list) option" where
  "emit e r = (case r of None \<Rightarrow> None | Some (x, st, e') \<Rightarrow> Some (x, st, e @ e'))"

text \<open>
  \<open>listSubfolders\<close>: the pages of one folder's children.  The provider may hand out page tokens
  for ever, so the loop takes fuel and \<open>None\<close> is a listing that has not returned.  An error of the
  provider leaves the function as \<open>Inl\<close>, to the \<open>catch\<close> of the search loop.
\<close>

fun listPages ::
  "nat \<Rightarrow> env \<Rightarrow> config \<Rightarrow> string \<Rightarrow> folder list \<Rightarrow> string \<Rightarrow> state
     \<Rightarrow> ((apierror + folder list) \<times> state \<times> event list) option" where
  "listPages 0 env cfg parentId acc pageToken st = None"
| "listPages (Suc n) env cfg parentId acc pageToken st =
     (let (st1, e1) = throttle env cfg st;
          q = ChildrenOf parentId pageToken;
          r = filesList env (nDrive st1) q;
          st2 = st1\<lparr>nDrive := nDrive st1 + 1\<rparr>
      in case r of
           Inl err \<Rightarrow> Some (Inl err, st2, e1 @ [FilesList q])
         | Inr pg \<Rightarrow>
             if nextPageToken pg \<noteq> []
             then emit (e1 @ [FilesList q])
                    (listPages n env cfg parentId (acc @ files pg) (nextPageToken pg) st2)
             else Some (Inr (acc @ files pg), st2, e1 @ [FilesList q]))"

definition listSubfolders ::
  "nat \<Rightarrow> env \<Rightarrow> config \<Rightarrow> string \<Rightarrow> state
     \<Rightarrow> ((apierror + folder list) \<times> state \<times> event list) option" where
  "listSubfolders fuel env cfg parentId st = listPages fuel env cfg parentId [] [] st"

definition maxDepth :: nat where
  "maxDepth = 3"

text \<open>
  The \<open>while (queue.length)\<close> loop of the search under a parent.  A rate-limited listing puts the
  folder back at the end of the queue, so the loop need not end: it takes fuel, one unit for each
  folder taken from the queue, and \<open>None\<close> is a search that has not returned.  The fuel left
  also bounds the pages of each listing.
\<close>

fun bfs ::
  "nat \<Rightarrow> env \<Rightarrow> config \<Rightarrow> string \<Rightarrow> (string \<times> nat) list \<Rightarrow> state
     \<Rightarrow> (string option \<times> state \<times> event list) option" where
  "bfs fuel env cfg targetLower [] st = Some (None, st, [])"
| "bfs 0 env cfg targetLower (current # queue) st = None"
| "bfs (Suc n) env cfg targetLower ((cid, depth) # queue) st =
     (if depth > maxDepth then bfs n env cfg targetLower queue st
      else
        case listSubfolders (Suc n) env cfg cid st of
          None \<Rightarrow> None
        | Some (Inr children, st1, e1) \<Rightarrow>
            (case find (\<lambda>f. toLowerCase (folder_name f) = targetLower) children of
               Some hit \<Rightarrow> Some (Some (folder_id hit), st1, e1)
             | None \<Rightarrow>
                 emit e1
                   (bfs n env cfg targetLower
                      (queue @ (if depth < maxDepth
                                then map (\<lambda>c. (folder_id c, depth + 1)) children else []))
                      st1))
        | Some (Inl err, st1, e1) \<Rightarrow>
            if isRetryableRateLimit err
            then emit (e1 @ [Sleep SoftWait 1000])
                   (bfs n env cfg targetLower (queue @ [(cid, depth)]) st1)
            else emit e1 (bfs n env cfg targetLower queue st1))"

text \<open>
  The inner \<open>try\<close> of the global search (no parent given): the retry loop with 5 attempts.  It
  returns the id of the first listed folder whose name is the target up to letter case (\<open>None\<close> is
  \<open>null\<close>), or raises what \<open>throw this.wrapError('drive.files.list', { query }, err)\<close> raises.
\<close>

definition globalSearchLoop ::
  "env \<Rightarrow> config \<Rightarrow> string \<Rightarrow> state \<Rightarrow> (wrapped + string option) \<times> state \<times> event list" where
  "globalSearchLoop env cfg name st =
     (case withRetry env cfg 5 (\<lambda>n. filesList env n (NameContains name))
             (FilesList (NameContains name)) 0 st of
        (Inr pg, st', evs) \<Rightarrow>
          (Inr (case filter (\<lambda>f. toLowerCase (folder_name f) = toLowerCase name) (files pg) of
                  [] \<Rightarrow> None
                | f # _ \<Rightarrow> Some (folder_id f)), st', evs)
      | (Inl err, st', evs) \<Rightarrow>
          (Inl \<lparr>wop = ''drive.files.list'', wctx = CtxQuery (NameContains name), werr = err\<rparr>,
           st', evs))"

text \<open>
  \<open>findFolderByName(name, parentFolderId)\<close>; \<open>None\<close> inside is \<open>null\<close>.  Without a parent the
  outer \<open>catch\<close> of the global search turns the error its retry loop raises into \<open>null\<close>.
\<close>

definition findFolderByName ::
  "nat \<Rightarrow> env \<Rightarrow> config \<Rightarrow> string \<Rightarrow> string \<Rightarrow> state
     \<Rightarrow> (string option \<times> state \<times> event list) option" where
  "findFolderByName fuel env cfg name parent st =
     (if name = [] then Some (None, st, [])
      else if parent = [] then
        (case globalSearchLoop env cfg name st of
           (Inr found, st', evs) \<Rightarrow> Some (found, st', evs)
         | (Inl w, st', evs) \<Rightarrow> Some (None, st', evs))
      else bfs fuel env cfg (toLowerCase name) [(parent, 0)] st)"

subsection \<open>hasPermission, grantPermission, updateCell\<close>

definition permissionMatches :: "string \<Rightarrow> string \<Rightarrow> permission \<Rightarrow> bool" where
  "permissionMatches em rl p =
     (emailAddress p \<noteq> [] \<and> toLowerCase (emailAddress p) = toLowerCase em \<and> role p = rl)"

text \<open>
  The inner \<open>try\<close> of \<open>hasPermission\<close>: the retry loop with 5 attempts.  It returns whether a
  listed entry matches, or raises what
  \<open>throw this.wrapError('drive.permissions.list', { fileId, email, role }, err)\<close> raises.
\<close>

definition listPermissionsLoop ::
  "env \<Rightarrow> config \<Rightarrow> string \<Rightarrow> string \<Rightarrow> string \<Rightarrow> state
     \<Rightarrow> (wrapped + bool) \<times> state \<times> event list" where
  "listPermissionsLoop env cfg fileId em rl st =
     (case withRetry env cfg 5 (\<lambda>n. permissionsList env n fileId) (PermissionsList fileId) 0 st of
        (Inr perms, st', evs) \<Rightarrow> (Inr (list_ex (permissionMatches em rl) perms), st', evs)
      | (Inl err, st', evs) \<Rightarrow>
          (Inl \<lparr>wop = ''drive.permissions.list'',
                wctx = CtxPermission fileId em rl, werr = err\<rparr>, st', evs))"

text \<open>The outer \<open>catch\<close> of \<open>hasPermission\<close> answers \<open>false\<close> to the error the loop raises.\<close>

definition hasPermission ::
  "env \<Rightarrow> config \<Rightarrow> string \<Rightarrow> string \<Rightarrow> string \<Rightarrow> state \<Rightarrow> bool \<times> state \<times> event list" where
  "hasPermission env cfg fileId em rl st =
     (case listPermissionsLoop env cfg fileId em rl st of
        (Inr b, st', evs) \<Rightarrow> (b, st', evs)
      | (Inl w, st', evs) \<Rightarrow> (False, st', evs))"

datatype grantResult = DryRun | Created permission

definition grantPermission ::
  "env \<Rightarrow> config \<Rightarrow> string \<Rightarrow> string \<Rightarrow> state \<Rightarrow> (wrapped + grantResult) \<times> state \<times> event list" where
  "grantPermission env cfg fileId em st =
     (if dryRun cfg then (Inr DryRun, st, [])
      else
        case withRetry env cfg 6 (\<lambda>n. permissionsCreate env n fileId em)
               (PermissionsCreate fileId em ''reader'') 0 st of
          (Inr d, st', evs) \<Rightarrow> (Inr (Created d), st', evs)
        | (Inl err, st', evs) \<Rightarrow>
            (Inl \<lparr>wop = ''drive.permissions.create'',
                  wctx = CtxPermission fileId em ''reader'', werr = err\<rparr>, st', evs))"

text \<open>
  \<open>updateCell(row, col, value)\<close>: one call of \<open>sheets.spreadsheets.values.update\<close>, with no
  throttle; the \<open>catch\<close> prints a warning for whatever the call throws.
\<close>

definition valuesUpdateCall ::
  "env \<Rightarrow> nat \<Rightarrow> string \<Rightarrow> cell \<Rightarrow> state \<Rightarrow> (apierror + unit) \<times> state \<times> event list" where
  "valuesUpdateCall env row col v st =
     (valuesUpdate env (nSheets st) col row v, st\<lparr>nSheets := nSheets st + 1\<rparr>,
      [ValuesUpdate col row v])"

definition updateCell :: "env \<Rightarrow> nat \<Rightarrow> string \<Rightarrow> cell \<Rightarrow> state \<Rightarrow> state \<times> event list" where
  "updateCell env row col v st =
     (case valuesUpdateCall env row col v st of
        (Inr u, st', evs) \<Rightarrow> (st', evs)
      | (Inl err, st', evs) \<Rightarrow> (st', evs @ [Warning col row]))"

text \<open>\<open>updateCell(row, col, `[${this.getCurrentTimestamp()}] msg`)\<close>: the clock is read first.\<close>

definition updateLog :: "env \<Rightarrow> nat \<Rightarrow> string \<Rightarrow> logmsg \<Rightarrow> state \<Rightarrow> state \<times> event list" where
  "updateLog env row col msg st =
     (let (ts, st1) = getCurrentTimestamp env st
      in updateCell env row col (Log ts msg) st1)"


section \<open>processParticipants\<close>

text \<open>The column indices of \<open>data.columns\<close> (\<open>-1\<close> for a header that was not found) and \<open>toCol\<close>,
  the A1 letters of a 0-based column index.\<close>

record columns =
  nameCol :: int
  emailCol :: int
  folderIdCol :: int
  isSharedCol :: int
  isFolderExistsCol :: int
  lastLogCol :: int

function toColLoop :: "int \<Rightarrow> string \<Rightarrow> string" where
  "toColLoop n s =
     (if n > 0 then toColLoop ((n - 1) div 26) (char_of (nat (65 + (n - 1) mod 26)) # s) else s)"
  by pat_completeness auto
termination
  by (relation "measure (\<lambda>(n, s). nat n)") auto

declare toColLoop.simps [simp del]

definition toCol :: "int \<Rightarrow> string" where
  "toCol index = toColLoop (index + 1) []"

text \<open>\<open>columns.xCol !== -1 ? columns.toCol(columns.xCol) : 'D'\<close>\<close>

definition colOf :: "int \<Rightarrow> string \<Rightarrow> string" where
  "colOf c dflt = (if c \<noteq> - 1 then toCol c else dflt)"

record stats =
  total_count :: nat
  done_count :: nat
  skipped_count :: nat
  errors_count :: nat

text \<open>
  The body of the \<open>for\<close> loop, from the top: first the part from \<open>// Grant permission\<close> to the end
  of the \<open>try\<close>, with the \<open>catch\<close> that only \<open>grantPermission\<close> can reach; then the two branches
  after \<open>// Find folder\<close>; then the whole body.
\<close>

definition grantStage ::
  "env \<Rightarrow> config \<Rightarrow> columns \<Rightarrow> participant \<Rightarrow> string \<Rightarrow> stats \<Rightarrow> state
     \<Rightarrow> (stats \<times> state) \<times> event list" where
  "grantStage env cfg cols p fileId sts st =
     (case grantPermission env cfg fileId (email p) st of
        (Inr res, st1, e1) \<Rightarrow>
          (let sts1 = sts\<lparr>done_count := done_count sts + 1\<rparr>;
               (st2, e2) = updateCell env (rowIndex p) (colOf (isSharedCol cols) ''D'')
                             (Text ''TRUE'') st1;
               tag = (if dryRun cfg then ''DRY_RUN'' else ''GRANTED'');
               (st3, e3) = updateLog env (rowIndex p) (colOf (lastLogCol cols) ''F'')
                             (Done tag ''reader'' (email p)) st2;
               jitter = int (mathRandom env (nRandom st3) mod 200);
               st4 = st3\<lparr>nRandom := nRandom st3 + 1\<rparr>
           in ((sts1, st4),
               e1 @ e2 @ e3 @ [Sleep Steady (max 0 (throttleMsOf cfg div 2) + jitter)]))
      | (Inl w, st1, e1) \<Rightarrow>
          (let sts1 = sts\<lparr>errors_count := errors_count sts + 1\<rparr>;
               (ts, st2) = getCurrentTimestamp env st1;
               (st3, e2) = updateCell env (rowIndex p) (colOf (isSharedCol cols) ''D'')
                             (Text ''FALSE'') st2;
               (st4, e3) = updateCell env (rowIndex p) (colOf (lastLogCol cols) ''F'')
                             (Log ts (ErrorLog w)) st3
           in ((sts1, st4), e1 @ e2 @ e3)))"

definition folderMissing ::
  "env \<Rightarrow> columns \<Rightarrow> participant \<Rightarrow> stats \<Rightarrow> state \<Rightarrow> (stats \<times> state) \<times> event list" where
  "folderMissing env cols p sts st =
     (let sts1 = sts\<lparr>errors_count := errors_count sts + 1\<rparr>;
          (st1, e1) = updateCell env (rowIndex p) (colOf (isFolderExistsCol cols) ''E'')
                        (Text ''FALSE'') st;
          (st2, e2) = updateLog env (rowIndex p) (colOf (lastLogCol cols) ''F'')
                        (FolderNotFound (nama p)) st1
      in ((sts1, st2), e1 @ e2))"

definition folderFound ::
  "env \<Rightarrow> config \<Rightarrow> columns \<Rightarrow> participant \<Rightarrow> string \<Rightarrow> stats \<Rightarrow> state
     \<Rightarrow> (stats \<times> state) \<times> event list" where
  "folderFound env cfg cols p fileId sts st =
     (let (st1, e1) = updateCell env (rowIndex p) (colOf (isFolderExistsCol cols) ''E'')
                        (Text ''TRUE'') st;
          (st2, e2) = (if folderId p = []
                       then updateCell env (rowIndex p) (colOf (folderIdCol cols) ''C'')
                              (Text fileId) st1
                       else (st1, []));
          (has, st3, e3) = hasPermission env cfg fileId (email p) ''reader'' st2
      in if has then
           (let sts1 = sts\<lparr>skipped_count := skipped_count sts + 1\<rparr>;
                (st4, e4) = updateCell env (rowIndex p) (colOf (isSharedCol cols) ''D'')
                              (Text ''TRUE'') st3;
                (st5, e5) = updateLog env (rowIndex p) (colOf (lastLogCol cols) ''F'')
                              (SkipAlreadyHas ''reader'') st4
            in ((sts1, st5), e1 @ e2 @ e3 @ e4 @ e5))
         else
           (case grantStage env cfg cols p fileId sts st3 of
              (r, e4) \<Rightarrow> (r, e1 @ e2 @ e3 @ e4)))"

text \<open>\<open>dedupKey\<close> is the \<open>key\<close> of the loop body: \<open>`${nama.toLowerCase()}|${email}`\<close>.\<close>

definition dedupKey :: "participant \<Rightarrow> string" where
  "dedupKey p = toLowerCase (nama p) @ ''|'' @ email p"

definition processOne ::
  "nat \<Rightarrow> env \<Rightarrow> config \<Rightarrow> columns \<Rightarrow> participant \<Rightarrow> stats \<times> string set \<times> state
     \<Rightarrow> ((stats \<times> string set \<times> state) \<times> event list) option" where
  "processOne fuel env cfg cols p acc =
     (case acc of (sts0, seen, st) \<Rightarrow>
        let sts = sts0\<lparr>total_count := total_count sts0 + 1\<rparr> in
        if \<not> includesStr (email p) ''@'' then
          (let sts1 = sts\<lparr>skipped_count := skipped_count sts + 1\<rparr>;
               (st1, e1) = updateCell env (rowIndex p) (colOf (isSharedCol cols) ''D'')
                             (Text ''FALSE'') st;
               (st2, e2) = updateLog env (rowIndex p) (colOf (lastLogCol cols) ''F'')
                             (SkipInvalidEmail (email p)) st1
           in Some ((sts1, seen, st2), e1 @ e2))
        else if dedupKey p \<in> seen then
          (let sts1 = sts\<lparr>skipped_count := skipped_count sts + 1\<rparr>;
               (st1, e1) = updateLog env (rowIndex p) ''F'' SkipDuplicate st
           in Some ((sts1, seen, st1), e1))
        else if isShared p \<noteq> [] \<and> toLowerCase (isShared p) = ''true'' then
          (let sts1 = sts\<lparr>skipped_count := skipped_count sts + 1\<rparr>;
               (st1, e1) = updateLog env (rowIndex p) (colOf (lastLogCol cols) ''F'')
                             SkipAlreadyShared st
           in Some ((sts1, insert (dedupKey p) seen, st1), e1))
        else
          case (if folderId p \<noteq> [] then Some (Some (folderId p), st, [])
                else findFolderByName fuel env cfg (nama p) (parentFolderId cfg) st) of
            None \<Rightarrow> None
          | Some (found, st1, e1) \<Rightarrow>
              (case (case found of
                       None \<Rightarrow> folderMissing env cols p sts st1
                     | Some fileId \<Rightarrow>
                         if fileId = [] then folderMissing env cols p sts st1
                         else folderFound env cfg cols p fileId sts st1) of
                 ((sts1, st2), e2) \<Rightarrow> Some ((sts1, insert (dedupKey p) seen, st2), e1 @ e2)))"

text \<open>The \<open>for\<close> loop over \<open>workingParticipants\<close>, and the pass.\<close>

fun processAll ::
  "nat \<Rightarrow> env \<Rightarrow> config \<Rightarrow> columns \<Rightarrow> participant list \<Rightarrow> stats \<times> string set \<times> state
     \<Rightarrow> ((stats \<times> string set \<times> state) \<times> event list) option" where
  "processAll fuel env cfg cols [] acc = Some (acc, [])"
| "processAll fuel env cfg cols (p # ps) acc =
     (case processOne fuel env cfg cols p acc of
        None \<Rightarrow> None
      | Some (acc1, e1) \<Rightarrow>
          (case processAll fuel env cfg cols ps acc1 of
             None \<Rightarrow> None
           | Some (acc2, e2) \<Rightarrow> Some (acc2, e1 @ e2)))"

definition stats0 :: stats where
  "stats0 = \<lparr>total_count = 0, done_count = 0, skipped_count = 0, errors_count = 0\<rparr>"

definition processParticipants ::
  "nat \<Rightarrow> env \<Rightarrow> config \<Rightarrow> columns \<Rightarrow> participant list \<Rightarrow> state
     \<Rightarrow> (stats \<times> state \<times> event list) option" where
  "processParticipants fuel env cfg cols participants st =
     (case processAll fuel env cfg cols (workingParticipants cfg participants) (stats0, {}, st) of
        None \<Rightarrow> None
      | Some ((sts, seen, st'), evs) \<Rightarrow> Some (sts, st', evs))"

section \<open>Observing a run\<close>

text \<open>The provider calls among the events of a run, and the events that a record may cause: sheet
  writes to its own row, and grants of the reader role to its own email when the run is not a
  simulation.\<close>

definition isSleep :: "event \<Rightarrow> bool" where
  "isSleep e = (case e of Sleep w d \<Rightarrow> True | _ \<Rightarrow> False)"

definition isFilesList :: "event \<Rightarrow> bool" where
  "isFilesList e = (case e of FilesList q \<Rightarrow> True | _ \<Rightarrow> False)"

definition isWarning :: "event \<Rightarrow> bool" where
  "isWarning e = (case e of Warning c r \<Rightarrow> True | _ \<Rightarrow> False)"

definition calls :: "event list \<Rightarrow> event list" where
  "calls evs = filter (\<lambda>e. \<not> isSleep e \<and> \<not> isWarning e) evs"

definition eventOf :: "config \<Rightarrow> participant \<Rightarrow> event \<Rightarrow> bool" where
  "eventOf cfg p e =
     (case e of
        ValuesUpdate c r v \<Rightarrow> r = rowIndex p
      | Warning c r \<Rightarrow> r = rowIndex p
      | PermissionsCreate f em rl \<Rightarrow> \<not> dryRun cfg \<and> em = email p \<and> rl = ''reader''
      | _ \<Rightarrow> True)"

text \<open>A row whose name or email is empty after trimming.\<close>

definition blank :: "participant \<Rightarrow> bool" where
  "blank p = (trim (nama p) = [] \<or> trim (email p) = [])"

definition noWarnings :: "event list \<Rightarrow> event list" where
  "noWarnings evs = filter (\<lambda>e. \<not> isWarning e) evs"

text \<open>A result with its events, the warnings left out.\<close>

definition quiet :: "'a \<times> event list \<Rightarrow> 'a \<times> event list" where
  "quiet r = (fst r, noWarnings (snd r))"

text \<open>
  The retry loop seen from outside.  \<open>retryableFailure r\<close>: the answer \<open>r\<close> is an error that
  \<open>isRetryableRateLimit\<close> accepts.  \<open>noThrottle\<close> leaves out the sleeps of \<open>throttle\<close>.
  \<open>retryPattern ev n js\<close> is the call \<open>ev\<close> made \<open>length js + 1\<close> times, with the backoff sleep after
  failed attempt number \<open>n\<close>, \<open>n + 1\<close>, ... between two calls, the jitters being \<open>js\<close>; and
  \<open>retryTrace ev k evs\<close> says that the events \<open>evs\<close> are, the throttle sleeps aside, \<open>k\<close> failed
  attempts and one last attempt, each jitter from 0 to 499.
\<close>

definition retryableFailure :: "apierror + 'a \<Rightarrow> bool" where
  "retryableFailure r = (case r of Inl err \<Rightarrow> isRetryableRateLimit err | Inr v \<Rightarrow> False)"

definition isThrottleSleep :: "event \<Rightarrow> bool" where
  "isThrottleSleep e = (case e of Sleep w d \<Rightarrow> w = Throttle | _ \<Rightarrow> False)"

definition noThrottle :: "event list \<Rightarrow> event list" where
  "noThrottle evs = filter (\<lambda>e. \<not> isThrottleSleep e) evs"

fun retryPattern :: "event \<Rightarrow> nat \<Rightarrow> int list \<Rightarrow> event list" where
  "retryPattern ev n [] = [ev]"
| "retryPattern ev n (j # js) = ev # Sleep Backoff (backoffMs n + j) # retryPattern ev (Suc n) js"

definition retryTrace :: "event \<Rightarrow> nat \<Rightarrow> nat \<Rightarrow> event list \<Rightarrow> bool" where
  "retryTrace ev n k evs =
     (\<exists>js. length js = k \<and> list_all (\<lambda>j. 0 \<le> j \<and> j < 500) js \<and>
           noThrottle evs = retryPattern ev n js)"

text \<open>
  A drive whose folders do not change is a function \<open>kids\<close> from a folder id to the list of its
  child folders.  From a list \<open>ids\<close> of folders, \<open>examined kids k ids\<close> lists the folders 1 to \<open>k\<close>
  levels below them in breadth-first order (level by level, each level in the order of the
  parents and of their listings), and \<open>listed kids k ids\<close> lists \<open>ids\<close> and the ids of the folders
  1 to \<open>k - 1\<close> levels below them: the folders whose children \<open>examined kids k ids\<close> needs.
\<close>

fun examined :: "(string \<Rightarrow> folder list) \<Rightarrow> nat \<Rightarrow> string list \<Rightarrow> folder list" where
  "examined kids 0 ids = []"
| "examined kids (Suc k) ids =
     concat (map kids ids) @ examined kids k (map folder_id (concat (map kids ids)))"

fun listed :: "(string \<Rightarrow> folder list) \<Rightarrow> nat \<Rightarrow> string list \<Rightarrow> string list" where
  "listed kids 0 ids = []"
| "listed kids (Suc k) ids = ids @ listed kids k (map folder_id (concat (map kids ids)))"

text \<open>Every listing of a folder's children succeeds, with fuel \<open>f0\<close> or more, and lists
  \<open>kids\<close> of the folder.\<close>

definition listingsAre :: "env \<Rightarrow> config \<Rightarrow> nat \<Rightarrow> (string \<Rightarrow> folder list) \<Rightarrow> bool" where
  "listingsAre env cfg f0 kids =
     (\<forall>fuel parentId st. f0 \<le> fuel \<longrightarrow>
        (\<exists>st' evs. listSubfolders fuel env cfg parentId st = Some (Inr (kids parentId), st', evs) \<and>
           list_all (\<lambda>e. isSleep e \<or> (\<exists>tok. e = FilesList (ChildrenOf parentId tok))) evs))"

text \<open>Events that are sleeps or listings of the children of one of the folders \<open>ids\<close>.\<close>

definition listsOnly :: "string list \<Rightarrow> event list \<Rightarrow> bool" where
  "listsOnly ids evs =
     list_all (\<lambda>e. isSleep e \<or> (\<exists>pid \<in> set ids. \<exists>tok. e = FilesList (ChildrenOf pid tok))) evs"


section \<open>Example inputs\<close>

definition pA :: participant where
  "pA = \<lparr>rowIndex = 2, nama = ''Jane Doe'', email = ''jane@ex.com'', folderId = [],
          isShared = [], isFolderExists = [], lastLog = []\<rparr>"

definition pB :: participant where
  "pB = \<lparr>rowIndex = 3, nama = ''Bob'', email = ''bob@ex.com'', folderId = ''1AbC'',
          isShared = [], isFolderExists = [], lastLog = []\<rparr>"

definition pShared :: participant where
  "pShared = \<lparr>rowIndex = 4, nama = ''Carol'', email = ''carol@ex.com'', folderId = [],
              isShared = ''TRUE'', isFolderExists = ''TRUE'', lastLog = []\<rparr>"

definition pBlank :: participant where
  "pBlank = \<lparr>rowIndex = 5, nama = ''   '', email = ''dan@ex.com'', folderId = [],
             isShared = [], isFolderExists = [], lastLog = []\<rparr>"

text \<open>A provider that answers every call: the folder \<open>P\<close> holds the folder \<open>Jane Doe\<close>, nobody has
  access yet.\<close>

definition envOk :: env where
  "envOk =
     \<lparr>filesList = (\<lambda>n q. case q of
          ChildrenOf parent t \<Rightarrow>
            Inr \<lparr>files = (if parent = ''P''
                           then [\<lparr>folder_id = ''f1'', folder_name = ''Jane Doe''\<rparr>] else []),
                 nextPageToken = []\<rparr>
        | NameContains name \<Rightarrow> Inr \<lparr>files = [], nextPageToken = []\<rparr>),
      permissionsList = (\<lambda>n f. Inr []),
      permissionsCreate = (\<lambda>n f e. Inr \<lparr>emailAddress = e, role = ''reader''\<rparr>),
      valuesUpdate = (\<lambda>n c r v. Inr ()),
      dateNow = (\<lambda>n. 100000 + 10 * int n),
      mathRandom = (\<lambda>n. 7)\<rparr>"

definition cfgOk :: config where
  "cfgOk = \<lparr>parentFolderId = ''P'', dryRun = False, throttleMs = 2500, maxPerRunConf = 300,
            envMax = None, shardTotal = 0, shardIndex = 0\<rparr>"

definition colsOk :: columns where
  "colsOk = \<lparr>nameCol = 0, emailCol = 1, folderIdCol = 2, isSharedCol = 3,
             isFolderExistsCol = 4, lastLogCol = 5\<rparr>"

definition st0 :: state where
  "st0 = \<lparr>lastApiCallAt = 0, nDrive = 0, nSheets = 0, nNow = 0, nRandom = 0\<rparr>"

definition cfgDry :: config where
  "cfgDry = cfgOk\<lparr>dryRun := True\<rparr>"

definition pZed :: participant where
  "pZed = \<lparr>rowIndex = 6, nama = ''Zed'', email = ''zed@ex.com'', folderId = [],
           isShared = [], isFolderExists = [], lastLog = []\<rparr>"




text \<open>The provider of \<open>envOk\<close> with a spreadsheet that refuses every write.\<close>

definition envNoSheet :: env where
  "envNoSheet =
     envOk\<lparr>valuesUpdate :=
              (\<lambda>n c r v. Inl \<lparr>status = Some 500, reasons = [''backendError''],
                               message = ''Internal error''\<rparr>)\<rparr>"

definition err500 :: apierror where
  "err500 = \<lparr>status = Some 500, reasons = [''backendError''], message = ''Internal error''\<rparr>"

definition err429 :: apierror where
  "err429 = \<lparr>status = Some 429, reasons = [''rateLimitExceeded''], message = ''Too many''\<rparr>"

text \<open>Providers whose permission listing always fails: with a server error, and with a rate
  limit.\<close>

definition envList500 :: env where
  "envList500 = envOk\<lparr>permissionsList := (\<lambda>n f. Inl err500)\<rparr>"

definition envList429 :: env where
  "envList429 = envOk\<lparr>permissionsList := (\<lambda>n f. Inl err429)\<rparr>"

text \<open>A provider that refuses the first two Drive calls with a rate limit when they are grants.\<close>

definition envCreate2 :: env where
  "envCreate2 =
     envOk\<lparr>permissionsCreate :=
              (\<lambda>n f e. if n < 2 then Inl err429 else Inr \<lparr>emailAddress = e, role = ''reader''\<rparr>)\<rparr>"

definition envSearch429 :: env where
  "envSearch429 = envOk\<lparr>filesList := (\<lambda>n q. Inl err429)\<rparr>"

text \<open>A chain of folders: \<open>P\<close> holds \<open>a\<close>, \<open>a\<close> holds \<open>b\<close>, \<open>b\<close> holds \<open>c\<close>, and \<open>c\<close> holds the folder
  \<open>t\<close> named \<open>Target\<close>, four levels below \<open>P\<close>.\<close>

definition kidsChain :: "string \<Rightarrow> folder list" where
  "kidsChain parent =
     (if parent = ''P'' then [\<lparr>folder_id = ''a'', folder_name = ''Alpha''\<rparr>]
      else if parent = ''a'' then [\<lparr>folder_id = ''b'', folder_name = ''Beta''\<rparr>]
      else if parent = ''b'' then [\<lparr>folder_id = ''c'', folder_name = ''Gamma''\<rparr>]
      else if parent = ''c'' then [\<lparr>folder_id = ''t'', folder_name = ''Target''\<rparr>]
      else [])"

definition envChain :: env where
  "envChain =
     envOk\<lparr>filesList := (\<lambda>n q. case q of
          ChildrenOf parent tok \<Rightarrow> Inr \<lparr>files = kidsChain parent, nextPageToken = []\<rparr>
        | NameContains name \<Rightarrow> Inr \<lparr>files = [], nextPageToken = []\<rparr>)\<rparr>"

section \<open>Events: which function emits what\<close>

lemma isSleep_simps [simp]:
  "isSleep (Sleep w d)" "\<not> isSleep (FilesList q)" "\<not> isSleep (PermissionsList f)"
  "\<not> isSleep (PermissionsCreate f e r)" "\<not> isSleep (ValuesUpdate c n v)" "\<not> isSleep (Warning c n)"
  by (simp_all add: isSleep_def)

lemma isWarning_simps [simp]:
  "\<not> isWarning (Sleep w d)" "\<not> isWarning (FilesList q)" "\<not> isWarning (PermissionsList f)"
  "\<not> isWarning (PermissionsCreate f e r)" "\<not> isWarning (ValuesUpdate c n v)" "isWarning (Warning c n)"
  by (simp_all add: isWarning_def)

lemma calls_append [simp]: "calls (xs @ ys) = calls xs @ calls ys"
  by (simp add: calls_def)

lemma calls_Nil [simp]: "calls [] = []"
  by (simp add: calls_def)

lemma calls_Cons: "calls (e # es) = (if \<not> isSleep e \<and> \<not> isWarning e then e # calls es else calls es)"
  by (simp add: calls_def)

subsection \<open>throttle\<close>

lemma throttle_events: "throttle env cfg st = (st', evs) \<Longrightarrow> list_all isSleep evs"
  by (auto simp: throttle_def Let_def split: if_splits)

lemma throttle_nDrive: "throttle env cfg st = (st', evs) \<Longrightarrow> nDrive st' = nDrive st"
  by (auto simp: throttle_def Let_def split: if_splits)

lemma throttle_nSheets: "throttle env cfg st = (st', evs) \<Longrightarrow> nSheets st' = nSheets st"
  by (auto simp: throttle_def Let_def split: if_splits)

subsection \<open>The retry loop, one round at a time\<close>

lemma withRetry_unfold:
  assumes "throttle env cfg st = (st1, e1)"
  shows "withRetry env cfg N resp ev attempt st =
     (case resp (nDrive st) of
        Inr v \<Rightarrow> (Inr v, st1\<lparr>nDrive := nDrive st + 1\<rparr>, e1 @ [ev])
      | Inl err \<Rightarrow>
          if isRetryableRateLimit err \<and> attempt + 1 < N then
            (case withRetry env cfg N resp ev (attempt + 1)
                    (st1\<lparr>nDrive := nDrive st + 1, nRandom := nRandom st1 + 1\<rparr>) of
               (r', st4, e2) \<Rightarrow>
                 (r', st4,
                  e1 @ [ev, Sleep Backoff (backoffMs (attempt + 1)
                                            + int (mathRandom env (nRandom st1) mod 500))] @ e2))
          else (Inl err, st1\<lparr>nDrive := nDrive st + 1\<rparr>, e1 @ [ev]))"
  using assms throttle_nDrive[OF assms]
  by (subst withRetry.simps) (simp add: Let_def split: sum.splits prod.splits)

lemma withRetry_events:
  "withRetry env cfg N resp ev attempt st = (r, st', evs) \<Longrightarrow>
     list_all (\<lambda>e. isSleep e \<or> e = ev) evs"
proof (induction "N - attempt" arbitrary: attempt st r st' evs)
  case 0
  obtain st1 e1 where t: "throttle env cfg st = (st1, e1)" by (cases "throttle env cfg st")
  from throttle_events[OF t] have "list_all (\<lambda>e. isSleep e \<or> e = ev) e1"
    by (simp add: list_all_iff)
  with 0 show ?case
    by (auto simp: withRetry_unfold[OF t] split: sum.splits)
next
  case (Suc k)
  obtain st1 e1 where t: "throttle env cfg st = (st1, e1)" by (cases "throttle env cfg st")
  from throttle_events[OF t] have s1: "list_all (\<lambda>e. isSleep e \<or> e = ev) e1"
    by (simp add: list_all_iff)
  have k: "k = N - (attempt + 1)" using Suc.hyps(2) by simp
  show ?case
    using Suc.prems s1 Suc.hyps(1)[OF k]
    by (auto simp: withRetry_unfold[OF t] split: sum.splits if_splits prod.splits)
qed

lemma hasPermission_events:
  "hasPermission env cfg fileId em rl st = (b, st', evs) \<Longrightarrow>
     list_all (\<lambda>e. isSleep e \<or> e = PermissionsList fileId) evs"
  by (auto simp: hasPermission_def listPermissionsLoop_def split: prod.splits sum.splits
      dest: withRetry_events)

lemma grantPermission_events:
  "grantPermission env cfg fileId em st = (r, st', evs) \<Longrightarrow>
     list_all (\<lambda>e. isSleep e \<or> (\<not> dryRun cfg \<and> e = PermissionsCreate fileId em ''reader'')) evs"
  by (auto simp: grantPermission_def list_all_iff split: prod.splits sum.splits if_splits
      dest!: withRetry_events)

lemma updateCell_events:
  "updateCell env row col v st = (st', evs) \<Longrightarrow>
     list_all (\<lambda>e. e = ValuesUpdate col row v \<or> e = Warning col row) evs"
  by (auto simp: updateCell_def valuesUpdateCall_def split: sum.splits)

lemma updateLog_events:
  "updateLog env row col msg st = (st', evs) \<Longrightarrow>
     list_all (\<lambda>e. (\<exists>ts. e = ValuesUpdate col row (Log ts msg)) \<or> e = Warning col row) evs"
  by (fastforce simp: updateLog_def getCurrentTimestamp_def list_all_iff dest!: updateCell_events)

lemma emit_Some: "emit e r = Some (x, st, evs) \<longleftrightarrow> (\<exists>e'. r = Some (x, st, e') \<and> evs = e @ e')"
  by (auto simp: emit_def split: option.splits)

lemma listPages_events:
  "listPages fuel env cfg parentId acc tok st = Some (r, st', evs) \<Longrightarrow>
     list_all (\<lambda>e. isSleep e \<or> (\<exists>t. e = FilesList (ChildrenOf parentId t))) evs"
proof (induction fuel arbitrary: acc tok st r st' evs)
  case 0
  then show ?case by simp
next
  case (Suc n)
  obtain st1 e1 where t: "throttle env cfg st = (st1, e1)" by (cases "throttle env cfg st")
  from throttle_events[OF t]
  have s1: "list_all (\<lambda>e. isSleep e \<or> (\<exists>t. e = FilesList (ChildrenOf parentId t))) e1"
    by (simp add: list_all_iff)
  show ?case
    using Suc.prems s1 t
    by (auto simp: Let_def emit_Some split: sum.splits if_splits dest!: Suc.IH)
qed


lemma isFilesList_simps [simp]:
  "\<not> isFilesList (Sleep w d)" "isFilesList (FilesList q)" "\<not> isFilesList (PermissionsList f)"
  "\<not> isFilesList (PermissionsCreate f e r)" "\<not> isFilesList (ValuesUpdate c n v)" "\<not> isFilesList (Warning c n)"
  by (simp_all add: isFilesList_def)

lemma listSubfolders_events:
  "listSubfolders fuel env cfg parentId st = Some (r, st', evs) \<Longrightarrow>
     list_all (\<lambda>e. isSleep e \<or> isFilesList e) evs"
  by (fastforce simp: listSubfolders_def list_all_iff dest!: listPages_events)

lemma bfs_events:
  "bfs fuel env cfg t queue st = Some (r, st', evs) \<Longrightarrow>
     list_all (\<lambda>e. isSleep e \<or> isFilesList e) evs"
proof (induction fuel arbitrary: queue st r st' evs)
  case 0
  then show ?case by (cases queue) auto
next
  case (Suc n)
  show ?case
  proof (cases queue)
    case Nil
    with Suc.prems show ?thesis by simp
  next
    case (Cons c q)
    obtain cid depth where c: "c = (cid, depth)" by (cases c)
    show ?thesis
      using Suc.prems unfolding Cons c
      by (auto simp: emit_Some split: if_splits option.splits sum.splits
          dest!: Suc.IH listSubfolders_events)
  qed
qed

lemma findFolderByName_events:
  "findFolderByName fuel env cfg name parent st = Some (r, st', evs) \<Longrightarrow>
     list_all (\<lambda>e. isSleep e \<or> isFilesList e) evs"
  by (fastforce simp: findFolderByName_def globalSearchLoop_def list_all_iff
      split: if_splits prod.splits sum.splits list.splits
      dest!: withRetry_events bfs_events)


subsection \<open>The events of one record\<close>

lemma eventOf_simps [simp]:
  "eventOf cfg p (Sleep w d)" "eventOf cfg p (FilesList q)" "eventOf cfg p (PermissionsList f)"
  "eventOf cfg p (PermissionsCreate f e r) \<longleftrightarrow> \<not> dryRun cfg \<and> e = email p \<and> r = ''reader''"
  "eventOf cfg p (ValuesUpdate c n v) \<longleftrightarrow> n = rowIndex p"
  "eventOf cfg p (Warning c n) \<longleftrightarrow> n = rowIndex p"
  by (simp_all add: eventOf_def)

lemma isSleep_eventOf: "isSleep e \<Longrightarrow> eventOf cfg p e"
  by (cases e) simp_all

lemma isFilesList_eventOf: "isFilesList e \<Longrightarrow> eventOf cfg p e"
  by (cases e) simp_all

lemma updateCell_eventOf:
  "updateCell env (rowIndex p) col v st = (st', evs) \<Longrightarrow> list_all (eventOf cfg p) evs"
  by (drule updateCell_events) (auto simp: list_all_iff)

lemma updateLog_eventOf:
  "updateLog env (rowIndex p) col msg st = (st', evs) \<Longrightarrow> list_all (eventOf cfg p) evs"
  by (drule updateLog_events) (auto simp: list_all_iff)

lemma hasPermission_eventOf:
  "hasPermission env cfg fileId em rl st = (b, st', evs) \<Longrightarrow> list_all (eventOf cfg p) evs"
  by (drule hasPermission_events) (auto simp: list_all_iff isSleep_eventOf)

lemma grantPermission_eventOf:
  "grantPermission env cfg fileId (email p) st = (r, st', evs) \<Longrightarrow> list_all (eventOf cfg p) evs"
  by (drule grantPermission_events) (auto simp: list_all_iff isSleep_eventOf)

lemma findFolderByName_eventOf:
  "findFolderByName fuel env cfg name parent st = Some (r, st', evs) \<Longrightarrow>
     list_all (eventOf cfg p) evs"
  by (drule findFolderByName_events) (auto simp: list_all_iff isSleep_eventOf isFilesList_eventOf)

lemma grantStage_eventOf:
  "grantStage env cfg cols p fileId sts st = (r, evs) \<Longrightarrow> list_all (eventOf cfg p) evs"
  by (auto simp: grantStage_def Let_def getCurrentTimestamp_def
      split: prod.splits sum.splits
      dest!: grantPermission_eventOf updateCell_eventOf[where cfg = cfg]
             updateLog_eventOf[where cfg = cfg])

lemma folderMissing_eventOf:
  "folderMissing env cols p sts st = (r, evs) \<Longrightarrow> list_all (eventOf cfg p) evs"
  by (auto simp: folderMissing_def Let_def split: prod.splits
      dest!: updateCell_eventOf[where cfg = cfg] updateLog_eventOf[where cfg = cfg])

lemma folderFound_eventOf:
  "folderFound env cfg cols p fileId sts st = (r, evs) \<Longrightarrow> list_all (eventOf cfg p) evs"
  by (auto simp: folderFound_def Let_def split: prod.splits if_splits
      dest!: updateCell_eventOf[where cfg = cfg] updateLog_eventOf[where cfg = cfg]
             hasPermission_eventOf[where cfg = cfg and p = p] grantStage_eventOf)

lemma processOne_eventOf:
  "processOne fuel env cfg cols p acc = Some (acc', evs) \<Longrightarrow> list_all (eventOf cfg p) evs"
  by (auto simp: processOne_def Let_def split: prod.splits if_splits option.splits
      dest!: updateCell_eventOf[where cfg = cfg] updateLog_eventOf[where cfg = cfg]
             findFolderByName_eventOf[where p = p] folderMissing_eventOf[where cfg = cfg]
             folderFound_eventOf)

lemma processAll_eventOf:
  "processAll fuel env cfg cols ps acc = Some (acc', evs) \<Longrightarrow>
     list_all (\<lambda>e. \<exists>p \<in> set ps. eventOf cfg p e) evs"
proof (induction ps arbitrary: acc acc' evs)
  case Nil
  then show ?case by simp
next
  case (Cons p ps)
  from Cons.prems obtain acc1 e1 e2 where
    one: "processOne fuel env cfg cols p acc = Some (acc1, e1)" and
    rest: "processAll fuel env cfg cols ps acc1 = Some (acc', e2)" and
    evs: "evs = e1 @ e2"
    by (auto split: option.splits)
  from processOne_eventOf[OF one] Cons.IH[OF rest] evs show ?case
    by (auto simp: list_all_iff)
qed

section \<open>The working batch and the counters\<close>

lemma markedShared_normalizeOne [simp]: "markedShared (normalizeOne p) = markedShared p"
  by (simp add: markedShared_def normalizeOne_def)

lemma unshared_normalize: "unshared (normalize ps) = normalize (filter (\<lambda>p. \<not> markedShared p) ps)"
  by (induction ps) (auto simp: unshared_def normalize_def)

lemma workingParticipants_drop_shared:
  "workingParticipants cfg (filter (\<lambda>p. \<not> markedShared p) ps) = workingParticipants cfg ps"
  by (simp add: workingParticipants_def unshared_normalize)

lemma set_slice0: "set (slice0 m xs) \<subseteq> set xs"
  by (auto simp: slice0_def dest: in_set_takeD)

lemma set_sharded: "set (sharded cfg xs) \<subseteq> set xs"
  by (auto simp: sharded_def shardFilter_def)

lemma workingParticipants_subset:
  "set (workingParticipants cfg ps) \<subseteq> set (unshared (normalize ps))"
  unfolding workingParticipants_def using set_slice0 set_sharded by fast

lemma workingParticipants_unshared:
  "w \<in> set (workingParticipants cfg ps) \<Longrightarrow> \<not> markedShared w"
  using workingParticipants_subset[of cfg ps] by (auto simp: unshared_def)

lemma workingParticipants_origin:
  assumes "w \<in> set (workingParticipants cfg ps)"
  shows "\<exists>p \<in> set ps. \<not> markedShared p \<and> \<not> blank p \<and> w = normalizeOne p"
proof -
  from assms workingParticipants_subset[of cfg ps]
  have w: "w \<in> set (unshared (normalize ps))" by blast
  then have ns: "\<not> markedShared w" and "w \<in> set (normalize ps)"
    by (simp_all add: unshared_def)
  then obtain p where p: "p \<in> set ps" "w = normalizeOne p" "nama w \<noteq> []" "email w \<noteq> []"
    by (auto simp: normalize_def)
  from p(2-4) have "\<not> blank p" by (simp add: blank_def normalizeOne_def toLowerCase_def)
  with p ns show ?thesis by auto
qed

lemma workingParticipants_all_shared:
  "\<forall>p \<in> set ps. markedShared p \<Longrightarrow> workingParticipants cfg ps = []"
proof -
  assume a: "\<forall>p \<in> set ps. markedShared p"
  have "set (workingParticipants cfg ps) = {}"
    using workingParticipants_origin[of _ cfg ps] a by fastforce
  then show ?thesis by simp
qed

lemma length_slice0: "length (slice0 m xs) \<le> length xs"
  by (simp add: slice0_def)

lemma length_sharded: "length (sharded cfg xs) \<le> length xs"
  by (simp add: sharded_def shardFilter_def)

lemma blank_normalizeOne: "blank p \<longleftrightarrow> nama (normalizeOne p) = [] \<or> email (normalizeOne p) = []"
  by (simp add: blank_def normalizeOne_def toLowerCase_def)

lemma normalize_drop_blank: "normalize (filter (\<lambda>p. \<not> blank p) ps) = normalize ps"
  by (induction ps) (auto simp: normalize_def blank_normalizeOne)

lemma workingParticipants_drop_blank:
  "workingParticipants cfg (filter (\<lambda>p. \<not> blank p) ps) = workingParticipants cfg ps"
  by (simp add: workingParticipants_def normalize_drop_blank)

lemma length_normalize: "length (normalize ps) = length (filter (\<lambda>p. \<not> blank p) ps)"
  by (induction ps) (auto simp: normalize_def blank_normalizeOne)

lemma length_workingParticipants:
  "length (workingParticipants cfg ps) \<le> length (filter (\<lambda>p. \<not> blank p) ps)"
proof -
  have "length (workingParticipants cfg ps) \<le> length (unshared (normalize ps))"
    unfolding workingParticipants_def
    using length_slice0 length_sharded le_trans by blast
  also have "\<dots> \<le> length (normalize ps)" by (simp add: unshared_def)
  finally show ?thesis by (simp add: length_normalize)
qed

subsection \<open>Counters\<close>

lemma grantStage_counts:
  "grantStage env cfg cols p fileId sts st = ((sts', st'), evs) \<Longrightarrow>
     total_count sts' = total_count sts \<and>
     done_count sts' + skipped_count sts' + errors_count sts'
       = done_count sts + skipped_count sts + errors_count sts + 1"
  by (auto simp: grantStage_def Let_def split: prod.splits sum.splits)

lemma folderMissing_counts:
  "folderMissing env cols p sts st = ((sts', st'), evs) \<Longrightarrow>
     total_count sts' = total_count sts \<and>
     done_count sts' + skipped_count sts' + errors_count sts'
       = done_count sts + skipped_count sts + errors_count sts + 1"
  by (auto simp: folderMissing_def Let_def split: prod.splits)

lemma folderFound_counts:
  "folderFound env cfg cols p fileId sts st = ((sts', st'), evs) \<Longrightarrow>
     total_count sts' = total_count sts \<and>
     done_count sts' + skipped_count sts' + errors_count sts'
       = done_count sts + skipped_count sts + errors_count sts + 1"
  by (auto simp: folderFound_def Let_def split: prod.splits if_splits dest!: grantStage_counts)

lemma processOne_counts:
  "processOne fuel env cfg cols p (sts, seen, st) = Some ((sts', seen', st'), evs) \<Longrightarrow>
     total_count sts' = total_count sts + 1 \<and>
     done_count sts' + skipped_count sts' + errors_count sts'
       = done_count sts + skipped_count sts + errors_count sts + 1"
  by (auto simp: processOne_def Let_def split: prod.splits if_splits option.splits
      dest!: folderMissing_counts folderFound_counts)

lemma processAll_counts:
  "processAll fuel env cfg cols ps (sts, seen, st) = Some ((sts', seen', st'), evs) \<Longrightarrow>
     total_count sts' = total_count sts + length ps \<and>
     done_count sts' + skipped_count sts' + errors_count sts'
       = done_count sts + skipped_count sts + errors_count sts + length ps"
proof (induction ps arbitrary: sts seen st evs)
  case Nil
  then show ?case by simp
next
  case (Cons p ps)
  from Cons.prems obtain sts1 seen1 st1 e1 e2 where
    one: "processOne fuel env cfg cols p (sts, seen, st) = Some ((sts1, seen1, st1), e1)" and
    rest: "processAll fuel env cfg cols ps (sts1, seen1, st1) = Some ((sts', seen', st'), e2)"
    by (auto split: option.splits)
  from processOne_counts[OF one] Cons.IH[OF rest] show ?case by simp
qed

section \<open>Sheet writes\<close>

lemma updateCell_calls:
  "updateCell env row col v st = (st', evs) \<Longrightarrow>
     calls evs = [ValuesUpdate col row v] \<and> st' = st\<lparr>nSheets := nSheets st + 1\<rparr>"
  by (auto simp: updateCell_def valuesUpdateCall_def calls_Cons split: sum.splits)

lemma updateLog_calls:
  "updateLog env row col msg st = (st', evs) \<Longrightarrow>
     calls evs = [ValuesUpdate col row (Log (dateNow env (nNow st)) msg)] \<and>
     st' = st\<lparr>nNow := nNow st + 1, nSheets := nSheets st + 1\<rparr>"
  by (auto simp: updateLog_def getCurrentTimestamp_def dest!: updateCell_calls)

section \<open>The retry loop: where it stops and what it emits\<close>

lemma noThrottle_append [simp]: "noThrottle (xs @ ys) = noThrottle xs @ noThrottle ys"
  by (simp add: noThrottle_def)

lemma noThrottle_Nil [simp]: "noThrottle [] = []"
  by (simp add: noThrottle_def)

lemma noThrottle_throttle: "throttle env cfg st = (st1, e1) \<Longrightarrow> noThrottle e1 = []"
  by (auto simp: throttle_def Let_def noThrottle_def isThrottleSleep_def split: if_splits)

lemma noThrottle_Cons:
  "noThrottle (e # es) = (if isThrottleSleep e then noThrottle es else e # noThrottle es)"
  by (simp add: noThrottle_def)

lemma retryTrace_0: "noThrottle evs = [ev] \<Longrightarrow> retryTrace ev n 0 evs"
  by (simp add: retryTrace_def)

lemma retryTrace_Suc:
  assumes "retryTrace ev (Suc n) k e2" and "noThrottle e1 = []" and "0 \<le> j" and "j < 500"
    and "\<not> isThrottleSleep ev"
  shows "retryTrace ev n (Suc k) (e1 @ [ev, Sleep Backoff (backoffMs n + j)] @ e2)"
proof -
  from assms(1) obtain js where js: "length js = k" "list_all (\<lambda>j. 0 \<le> j \<and> j < 500) js"
    "noThrottle e2 = retryPattern ev (Suc n) js"
    by (auto simp: retryTrace_def)
  have "noThrottle (e1 @ [ev, Sleep Backoff (backoffMs n + j)] @ e2) = retryPattern ev n (j # js)"
    using assms(2,5) js(3) by (simp add: noThrottle_Cons isThrottleSleep_def)
  moreover have "length (j # js) = Suc k" using js(1) by simp
  moreover have "list_all (\<lambda>j. 0 \<le> j \<and> j < 500) (j # js)" using js(2) assms(3,4) by simp
  ultimately show ?thesis unfolding retryTrace_def by blast
qed

lemma withRetry_outcome:
  assumes "attempt + k < N"
    and "\<forall>i<k. retryableFailure (resp (nDrive st + i))"
    and "\<not> retryableFailure (resp (nDrive st + k)) \<or> attempt + k + 1 = N"
    and "\<not> isThrottleSleep ev"
  shows "\<exists>st' evs. withRetry env cfg N resp ev attempt st = (resp (nDrive st + k), st', evs) \<and>
           nDrive st' = nDrive st + k + 1 \<and> retryTrace ev (attempt + 1) k evs"
  using assms(1-3)
proof (induction k arbitrary: attempt st)
  case 0
  obtain st1 e1 where t: "throttle env cfg st = (st1, e1)" by (cases "throttle env cfg st")
  note nt = noThrottle_throttle[OF t]
  have tr: "retryTrace ev (attempt + 1) 0 (e1 @ [ev])"
    using nt assms(4) by (intro retryTrace_0) (simp add: noThrottle_Cons)
  have stop: "withRetry env cfg N resp ev attempt st
                = (resp (nDrive st), st1\<lparr>nDrive := nDrive st + 1\<rparr>, e1 @ [ev])"
  proof (cases "resp (nDrive st)")
    case (Inr v)
    then show ?thesis by (simp add: withRetry_unfold[OF t])
  next
    case (Inl err)
    with "0.prems"(3) have "\<not> (isRetryableRateLimit err \<and> attempt + 1 < N)"
      by (auto simp: retryableFailure_def)
    with Inl show ?thesis by (auto simp: withRetry_unfold[OF t])
  qed
  show ?case
    apply (rule exI[of _ "st1\<lparr>nDrive := nDrive st + 1\<rparr>"])
    apply (rule exI[of _ "e1 @ [ev]"])
    using stop tr by simp
next
  case (Suc k)
  obtain st1 e1 where t: "throttle env cfg st = (st1, e1)" by (cases "throttle env cfg st")
  note nt = noThrottle_throttle[OF t]
  from Suc.prems(2) have "retryableFailure (resp (nDrive st + 0))" by blast
  then obtain err where err: "resp (nDrive st) = Inl err" "isRetryableRateLimit err"
    by (auto simp: retryableFailure_def split: sum.splits)
  from Suc.prems(1) have lt: "attempt + 1 < N" by simp
  define st3 where "st3 = st1\<lparr>nDrive := nDrive st + 1, nRandom := nRandom st1 + 1\<rparr>"
  have n3: "nDrive st3 = nDrive st + 1" by (simp add: st3_def)
  have a1: "(attempt + 1) + k < N" using Suc.prems(1) by simp
  have a2: "\<forall>i<k. retryableFailure (resp (nDrive st3 + i))"
    using Suc.prems(2) by (auto simp: n3)
  have a3: "\<not> retryableFailure (resp (nDrive st3 + k)) \<or> (attempt + 1) + k + 1 = N"
    using Suc.prems(3) by (simp add: n3)
  from Suc.IH[OF a1 a2 a3] obtain st' e2 where
    r: "withRetry env cfg N resp ev (attempt + 1) st3 = (resp (nDrive st3 + k), st', e2)"
    and n: "nDrive st' = nDrive st3 + k + 1"
    and tr: "retryTrace ev (Suc (attempt + 1)) k e2"
    by auto
  define j where "j = int (mathRandom env (nRandom st1) mod 500)"
  have j: "0 \<le> j" "j < 500" by (simp_all add: j_def)
  have tr': "retryTrace ev (attempt + 1) (Suc k)
               (e1 @ [ev, Sleep Backoff (backoffMs (attempt + 1) + j)] @ e2)"
    using tr nt j assms(4) by (rule retryTrace_Suc)
  have step: "withRetry env cfg N resp ev attempt st
      = (resp (nDrive st3 + k), st', e1 @ [ev, Sleep Backoff (backoffMs (attempt + 1) + j)] @ e2)"
    using err lt r by (simp add: withRetry_unfold[OF t] st3_def j_def)
  show ?case
    apply (rule exI[of _ st'])
    apply (rule exI[of _ "e1 @ [ev, Sleep Backoff (backoffMs (attempt + 1) + j)] @ e2"])
    using step n tr' by (simp add: n3)
qed

lemma stop_index_exists:
  assumes "attempt < (N::nat)"
  shows "\<exists>k. attempt + k < N \<and> (\<forall>i<k. P i) \<and> (\<not> P k \<or> attempt + k + 1 = N)"
proof (cases "\<forall>i < N - attempt. P i")
  case True
  define k where "k = N - attempt - 1"
  have "attempt + k < N" "attempt + k + 1 = N" using assms by (simp_all add: k_def)
  moreover have "\<forall>i<k. P i" using True by (simp add: k_def)
  ultimately show ?thesis by blast
next
  case False
  then obtain i where i: "i < N - attempt" "\<not> P i" by blast
  define k where "k = (LEAST i. \<not> P i)"
  have 1: "\<not> P k" unfolding k_def using i(2) by (rule LeastI)
  have "k \<le> i" unfolding k_def using i(2) by (rule Least_le)
  with i(1) have 2: "attempt + k < N" by simp
  have 3: "\<forall>j<k. P j" unfolding k_def using not_less_Least by blast
  from 1 2 3 show ?thesis by blast
qed

lemma withRetry_cases:
  assumes "attempt < N" and "\<not> isThrottleSleep ev"
  shows "\<exists>k st' evs. attempt + k < N \<and>
           (\<forall>i<k. retryableFailure (resp (nDrive st + i))) \<and>
           (\<not> retryableFailure (resp (nDrive st + k)) \<or> attempt + k + 1 = N) \<and>
           withRetry env cfg N resp ev attempt st = (resp (nDrive st + k), st', evs) \<and>
           nDrive st' = nDrive st + k + 1 \<and> retryTrace ev (attempt + 1) k evs"
proof -
  from stop_index_exists[OF assms(1), of "\<lambda>i. retryableFailure (resp (nDrive st + i))"]
  obtain k where k: "attempt + k < N" "\<forall>i<k. retryableFailure (resp (nDrive st + i))"
    "\<not> retryableFailure (resp (nDrive st + k)) \<or> attempt + k + 1 = N" by blast
  from withRetry_outcome[OF k assms(2)] obtain st' evs where
    r: "withRetry env cfg N resp ev attempt st = (resp (nDrive st + k), st', evs)"
      "nDrive st' = nDrive st + k + 1" "retryTrace ev (attempt + 1) k evs"
    by blast
  show ?thesis
    apply (rule exI[of _ k], rule exI[of _ st'], rule exI[of _ evs])
    using k r by simp
qed

section \<open>Sharding\<close>

lemma assignedShard_range: "0 < n \<Longrightarrow> 0 \<le> assignedShard n p \<and> assignedShard n p < n"
  by (simp add: assignedShard_def)

text \<open>
  C2.  For a shard count \<open>n \<ge> 1\<close>, every record is assigned one shard index in \<open>[0, n)\<close>: it
  belongs to the shard-filtered list of index \<open>i\<close> exactly when \<open>i\<close> is its assigned shard.  The
  shard-filtered lists of the indices \<open>0..n-1\<close> cover the record list, and those of two distinct
  indices share no record.  The shard is a function of the shard key alone: the folder id when it
  is not empty, else the lower-cased name; it is \<open>hashKey key mod n\<close>; and the filter
  \<open>processParticipants\<close> applies for shard \<open>k\<close> of \<open>n\<close> is that shard-filtered list.
\<close>

theorem sharding_partitions:
  "0 < n \<Longrightarrow>
     (0 \<le> assignedShard n p \<and> assignedShard n p < n) \<and>
     (\<forall>i. p \<in> set (shardFilter n i ps) \<longleftrightarrow> p \<in> set ps \<and> i = assignedShard n p) \<and>
     (\<Union>i \<in> {0..<n}. set (shardFilter n i ps)) = set ps \<and>
     (\<forall>i j. i \<noteq> j \<longrightarrow> set (shardFilter n i ps) \<inter> set (shardFilter n j ps) = {}) \<and>
     (\<forall>q. shardKey q = shardKey p \<longrightarrow> assignedShard n q = assignedShard n p) \<and>
     shardKey p = (if folderId p \<noteq> [] then folderId p else toLowerCase (nama p)) \<and>
     assignedShard n p = int (hashKey (shardKey p)) mod n \<and>
     sharded (cfg\<lparr>shardTotal := n, shardIndex := k\<rparr>) ps = shardFilter n k ps"
proof -
  assume n: "0 < n"
  have r: "\<And>q. 0 \<le> assignedShard n q \<and> assignedShard n q < n"
    using n by (rule assignedShard_range)
  have u: "(\<Union>i \<in> {0..<n}. set (shardFilter n i ps)) = set ps"
  proof
    show "(\<Union>i \<in> {0..<n}. set (shardFilter n i ps)) \<subseteq> set ps"
      by (auto simp: shardFilter_def)
    show "set ps \<subseteq> (\<Union>i \<in> {0..<n}. set (shardFilter n i ps))"
    proof
      fix q assume "q \<in> set ps"
      then have "q \<in> set (shardFilter n (assignedShard n q) ps)"
        by (simp add: shardFilter_def)
      moreover have "assignedShard n q \<in> {0..<n}" using r[of q] by simp
      ultimately show "q \<in> (\<Union>i \<in> {0..<n}. set (shardFilter n i ps))" by blast
    qed
  qed
  have d: "\<forall>i j. i \<noteq> j \<longrightarrow> set (shardFilter n i ps) \<inter> set (shardFilter n j ps) = {}"
    by (auto simp: shardFilter_def)
  have m: "\<forall>i. p \<in> set (shardFilter n i ps) \<longleftrightarrow> p \<in> set ps \<and> i = assignedShard n p"
    by (auto simp: shardFilter_def)
  have k: "\<forall>q. shardKey q = shardKey p \<longrightarrow> assignedShard n q = assignedShard n p"
    by (simp add: assignedShard_def)
  have s: "sharded (cfg\<lparr>shardTotal := n, shardIndex := k\<rparr>) ps = shardFilter n k ps"
    using n by (simp add: sharded_def)
  show ?thesis using r[of p] m u d k s by (simp add: shardKey_def assignedShard_def)
qed

theorem sharding_partitions_witness:
  "assignedShard 3 pA < 3 \<and> pA \<in> set (shardFilter 3 (assignedShard 3 pA) [pA, pB]) \<and>
   (\<Union>i \<in> {0..<3}. set (shardFilter 3 i [pA, pB])) = {pA, pB}"
  using sharding_partitions [of 3 pA "[pA, pB]"] by simp

section \<open>Records already marked shared\<close>

text \<open>
  C1.  A record whose isShared cell is \<open>true\<close> in any letter case never enters the working batch,
  so the loop never runs for it: the pass over a table is the pass over the table without those
  records (same counters, same state, same events), a pass over a table of shared records only
  does nothing at all, and every \<open>drive.permissions.create\<close> call of a pass carries the email of a
  record of the table that is not marked shared.
\<close>

theorem shared_records_never_granted:
  "(\<forall>w \<in> set (workingParticipants cfg ps). \<not> markedShared w) \<and>
   processParticipants fuel env cfg cols ps st
     = processParticipants fuel env cfg cols (filter (\<lambda>p. \<not> markedShared p) ps) st \<and>
   ((\<forall>p \<in> set ps. markedShared p) \<longrightarrow>
      processParticipants fuel env cfg cols ps st = Some (stats0, st, [])) \<and>
   (\<forall>sts st' evs fileId em rl.
      processParticipants fuel env cfg cols ps st = Some (sts, st', evs) \<and>
      PermissionsCreate fileId em rl \<in> set evs \<longrightarrow>
      (\<exists>p \<in> set ps. \<not> markedShared p \<and> email (normalizeOne p) = em))"
proof (intro conjI allI impI ballI)
  fix w assume "w \<in> set (workingParticipants cfg ps)"
  then show "\<not> markedShared w" by (rule workingParticipants_unshared)
next
  show "processParticipants fuel env cfg cols ps st
     = processParticipants fuel env cfg cols (filter (\<lambda>p. \<not> markedShared p) ps) st"
    by (simp add: processParticipants_def workingParticipants_drop_shared)
next
  assume "\<forall>p \<in> set ps. markedShared p"
  then show "processParticipants fuel env cfg cols ps st = Some (stats0, st, [])"
    by (simp add: processParticipants_def workingParticipants_all_shared)
next
  fix sts st' evs fileId em rl
  assume a: "processParticipants fuel env cfg cols ps st = Some (sts, st', evs) \<and>
      PermissionsCreate fileId em rl \<in> set evs"
  then obtain seen where
    "processAll fuel env cfg cols (workingParticipants cfg ps) (stats0, {}, st)
       = Some ((sts, seen, st'), evs)"
    by (auto simp: processParticipants_def split: option.splits)
  from processAll_eventOf[OF this] a obtain w where
    w: "w \<in> set (workingParticipants cfg ps)" "eventOf cfg w (PermissionsCreate fileId em rl)"
    by (auto simp: list_all_iff)
  from workingParticipants_origin[OF w(1)] w(2)
  show "\<exists>p \<in> set ps. \<not> markedShared p \<and> email (normalizeOne p) = em" by auto
qed

lemma markedShared_examples: "markedShared pShared" "\<not> markedShared pA"
  by code_simp+

theorem shared_records_never_granted_witness:
  "processParticipants 5 envOk cfgOk colsOk [pShared, pA] st0
     = processParticipants 5 envOk cfgOk colsOk [pA] st0 \<and>
   processParticipants 5 envOk cfgOk colsOk [pShared] st0 = Some (stats0, st0, [])"
proof -
  have f: "filter (\<lambda>p. \<not> markedShared p) [pShared, pA] = [pA]"
    by (simp add: markedShared_examples)
  have a: "\<forall>p \<in> set [pShared]. markedShared p"
    by (simp add: markedShared_examples)
  have "processParticipants 5 envOk cfgOk colsOk [pShared, pA] st0
     = processParticipants 5 envOk cfgOk colsOk [pA] st0"
    using shared_records_never_granted [of cfgOk "[pShared, pA]" 5 envOk colsOk st0,
        THEN conjunct2, THEN conjunct1]
    unfolding f .
  moreover have "processParticipants 5 envOk cfgOk colsOk [pShared] st0 = Some (stats0, st0, [])"
    using shared_records_never_granted [of cfgOk "[pShared]" 5 envOk colsOk st0,
        THEN conjunct2, THEN conjunct2, THEN conjunct1] a
    by (rule mp)
  ultimately show ?thesis by (rule conjI)
qed

section \<open>Rows without a name or an email\<close>

lemma blank_examples: "blank pBlank" "\<not> blank pA"
  by code_simp+

lemma run_pA:
  "processParticipants 5 envOk cfgOk colsOk [pA] st0 = Some
    (\<lparr>total_count = 1, done_count = 1, skipped_count = 0, errors_count = 0\<rparr>,
     \<lparr>lastApiCallAt = 100050, nDrive = 3, nSheets = 4, nNow = 7, nRandom = 3\<rparr>,
     [FilesList (ChildrenOf ''P'' []), ValuesUpdate ''E'' 2 (Text ''TRUE''),
      ValuesUpdate ''C'' 2 (Text ''f1''), Sleep Throttle 2497,
      PermissionsList ''f1'', Sleep Throttle 2497,
      PermissionsCreate ''f1'' ''jane@ex.com'' ''reader'',
      ValuesUpdate ''D'' 2 (Text ''TRUE''),
      ValuesUpdate ''F'' 2 (Log 100060 (Done ''GRANTED'' ''reader'' ''jane@ex.com'')),
      Sleep Steady 1257])"
  by code_simp


text \<open>
  C9.  A row whose name or email is empty after trimming is removed by the normalisation, before
  the working batch is formed: every record of the batch has a name and an email, the pass over
  a table is the pass over the table without those rows (same counters, same state, same events),
  \<open>total\<close> counts the records of the batch only, every counted record is counted once more as
  done, skipped or error, and every cell written belongs to the row of a record that has both a
  name and an email.
\<close>

theorem blank_rows_are_dropped:
  "(\<forall>w \<in> set (workingParticipants cfg ps). nama w \<noteq> [] \<and> email w \<noteq> []) \<and>
   processParticipants fuel env cfg cols ps st
     = processParticipants fuel env cfg cols (filter (\<lambda>p. \<not> blank p) ps) st \<and>
   (\<forall>sts st' evs.
      processParticipants fuel env cfg cols ps st = Some (sts, st', evs) \<longrightarrow>
        total_count sts = length (workingParticipants cfg ps) \<and>
        total_count sts \<le> length (filter (\<lambda>p. \<not> blank p) ps) \<and>
        done_count sts + skipped_count sts + errors_count sts = total_count sts \<and>
        (\<forall>c r v. ValuesUpdate c r v \<in> set evs \<longrightarrow> (\<exists>p \<in> set ps. \<not> blank p \<and> rowIndex p = r)))"
proof (intro conjI allI impI ballI)
  fix w assume "w \<in> set (workingParticipants cfg ps)"
  with workingParticipants_subset[of cfg ps] have "w \<in> set (normalize ps)"
    by (auto simp: unshared_def)
  then show "nama w \<noteq> []" "email w \<noteq> []" by (simp_all add: normalize_def)
next
  show "processParticipants fuel env cfg cols ps st
     = processParticipants fuel env cfg cols (filter (\<lambda>p. \<not> blank p) ps) st"
    by (simp add: processParticipants_def workingParticipants_drop_blank)
next
  fix sts st' evs
  assume "processParticipants fuel env cfg cols ps st = Some (sts, st', evs)"
  then obtain seen where
    run: "processAll fuel env cfg cols (workingParticipants cfg ps) (stats0, {}, st)
       = Some ((sts, seen, st'), evs)"
    by (auto simp: processParticipants_def split: option.splits)
  from processAll_counts[OF run]
  show t: "total_count sts = length (workingParticipants cfg ps)"
    and "done_count sts + skipped_count sts + errors_count sts = total_count sts"
    by (simp_all add: stats0_def)
  from t length_workingParticipants[of cfg ps]
  show "total_count sts \<le> length (filter (\<lambda>p. \<not> blank p) ps)" by simp
  fix c r v assume "ValuesUpdate c r v \<in> set evs"
  with processAll_eventOf[OF run] obtain w where
    w: "w \<in> set (workingParticipants cfg ps)" "r = rowIndex w"
    by (auto simp: list_all_iff)
  from workingParticipants_origin[OF w(1)] w(2)
  show "\<exists>p \<in> set ps. \<not> blank p \<and> rowIndex p = r"
    by (auto simp: normalizeOne_def)
qed


theorem blank_rows_are_dropped_witness:
  "processParticipants 5 envOk cfgOk colsOk [pBlank, pA] st0
     = processParticipants 5 envOk cfgOk colsOk [pA] st0 \<and>
   (\<exists>sts st' evs. processParticipants 5 envOk cfgOk colsOk [pBlank, pA] st0 = Some (sts, st', evs) \<and>
      total_count sts = 1 \<and> ValuesUpdate ''D'' 2 (Text ''TRUE'') \<in> set evs \<and>
      ValuesUpdate ''D'' 5 (Text ''TRUE'') \<notin> set evs)"
proof -
  have f: "filter (\<lambda>p. \<not> blank p) [pBlank, pA] = [pA]"
    by (simp add: blank_examples)
  have e: "processParticipants 5 envOk cfgOk colsOk [pBlank, pA] st0
     = processParticipants 5 envOk cfgOk colsOk [pA] st0"
    using blank_rows_are_dropped [of cfgOk "[pBlank, pA]" 5 envOk colsOk st0,
        THEN conjunct2, THEN conjunct1]
    unfolding f .
  show ?thesis unfolding e by (simp add: run_pA)
qed

section \<open>Simulation mode\<close>

lemma run_pA_dry:
  "processParticipants 5 envOk cfgDry colsOk [pA] st0 = Some
    (\<lparr>total_count = 1, done_count = 1, skipped_count = 0, errors_count = 0\<rparr>,
     \<lparr>lastApiCallAt = 100030, nDrive = 2, nSheets = 4, nNow = 5, nRandom = 2\<rparr>,
     [FilesList (ChildrenOf ''P'' []), ValuesUpdate ''E'' 2 (Text ''TRUE''),
      ValuesUpdate ''C'' 2 (Text ''f1''), Sleep Throttle 2497,
      PermissionsList ''f1'',
      ValuesUpdate ''D'' 2 (Text ''TRUE''),
      ValuesUpdate ''F'' 2 (Log 100040 (Done ''DRY_RUN'' ''reader'' ''jane@ex.com'')),
      Sleep Steady 1257])"
  by code_simp


text \<open>
  C7.  In simulation mode (\<open>dryRun\<close>) \<open>grantPermission\<close> returns the \<open>DRY_RUN\<close> result at once:
  no call, no sleep, the state as it was.  A record that reaches the grant step is counted as
  done, and the provider calls of that step are the two sheet writes: \<open>TRUE\<close> into its isShared
  cell, then the LastLog line tagged \<open>DRY_RUN\<close>.  No event of a whole pass in simulation mode is a
  \<open>drive.permissions.create\<close> call.
\<close>

theorem dry_run_issues_no_grant:
  "dryRun cfg \<Longrightarrow>
     grantPermission env cfg fileId em st = (Inr DryRun, st, []) \<and>
     (case grantStage env cfg cols p fileId sts st of
        ((sts', st'), evs) \<Rightarrow>
          sts' = sts\<lparr>done_count := done_count sts + 1\<rparr> \<and>
          calls evs =
            [ValuesUpdate (colOf (isSharedCol cols) ''D'') (rowIndex p) (Text ''TRUE''),
             ValuesUpdate (colOf (lastLogCol cols) ''F'') (rowIndex p)
               (Log (dateNow env (nNow st)) (Done ''DRY_RUN'' ''reader'' (email p)))]) \<and>
     (\<forall>sts' st' evs f e r.
        processParticipants fuel env cfg cols ps st = Some (sts', st', evs) \<longrightarrow>
        PermissionsCreate f e r \<notin> set evs)"
proof (intro conjI allI impI)
  assume d: "dryRun cfg"
  show g: "grantPermission env cfg fileId em st = (Inr DryRun, st, [])"
    using d by (simp add: grantPermission_def)
  show "case grantStage env cfg cols p fileId sts st of
        ((sts', st'), evs) \<Rightarrow>
          sts' = sts\<lparr>done_count := done_count sts + 1\<rparr> \<and>
          calls evs =
            [ValuesUpdate (colOf (isSharedCol cols) ''D'') (rowIndex p) (Text ''TRUE''),
             ValuesUpdate (colOf (lastLogCol cols) ''F'') (rowIndex p)
               (Log (dateNow env (nNow st)) (Done ''DRY_RUN'' ''reader'' (email p)))]"
    using d
    by (auto simp: grantStage_def grantPermission_def Let_def calls_Cons split: prod.splits
        dest!: updateCell_calls updateLog_calls)
  fix sts' st' evs f e r
  assume "processParticipants fuel env cfg cols ps st = Some (sts', st', evs)"
  then obtain seen where
    run: "processAll fuel env cfg cols (workingParticipants cfg ps) (stats0, {}, st)
       = Some ((sts', seen, st'), evs)"
    by (auto simp: processParticipants_def split: option.splits)
  show "PermissionsCreate f e r \<notin> set evs"
  proof
    assume "PermissionsCreate f e r \<in> set evs"
    with processAll_eventOf[OF run] d show False by (auto simp: list_all_iff)
  qed
qed


theorem dry_run_issues_no_grant_witness:
  "dryRun cfgDry \<and>
   grantPermission envOk cfgDry ''f1'' ''jane@ex.com'' st0 = (Inr DryRun, st0, []) \<and>
   (\<exists>sts st' evs. processParticipants 5 envOk cfgDry colsOk [pA] st0 = Some (sts, st', evs) \<and>
      done_count sts = 1 \<and>
      ValuesUpdate ''F'' 2 (Log 100040 (Done ''DRY_RUN'' ''reader'' ''jane@ex.com'')) \<in> set evs \<and>
      PermissionsCreate ''f1'' ''jane@ex.com'' ''reader'' \<notin> set evs)"
proof -
  have d: "dryRun cfgDry" by (simp add: cfgDry_def)
  from dry_run_issues_no_grant [OF d, of envOk "''f1''" "''jane@ex.com''" st0]
  have "grantPermission envOk cfgDry ''f1'' ''jane@ex.com'' st0 = (Inr DryRun, st0, [])"
    by (rule conjunct1)
  with d show ?thesis by (simp add: run_pA_dry)
qed

section \<open>Folder not found\<close>

lemma folderMissing_result:
  "\<exists>st2 e2. folderMissing env cols p sts st = ((sts\<lparr>errors_count := errors_count sts + 1\<rparr>, st2), e2) \<and>
     calls e2 = [ValuesUpdate (colOf (isFolderExistsCol cols) ''E'') (rowIndex p) (Text ''FALSE''),
                 ValuesUpdate (colOf (lastLogCol cols) ''F'') (rowIndex p)
                   (Log (dateNow env (nNow st)) (FolderNotFound (nama p)))]"
  by (auto simp: folderMissing_def Let_def split: prod.splits
      dest!: updateCell_calls updateLog_calls)

lemma find_pZed:
  "findFolderByName 5 envOk cfgOk (nama pZed) (parentFolderId cfgOk) st0 = Some
    (None, \<lparr>lastApiCallAt = 100030, nDrive = 2, nSheets = 0, nNow = 4, nRandom = 1\<rparr>,
     [FilesList (ChildrenOf ''P'' []), Sleep Throttle 2497, FilesList (ChildrenOf ''f1'' [])])"
  by code_simp


text \<open>
  C5, as the claim states it, fails: a record whose folder is not found is counted in \<open>errors\<close>.
  The pass over the one record \<open>Zed\<close>, whose folder the provider does not have, ends with
  \<open>errors = 1\<close>.
\<close>

theorem folder_not_found_counts_as_error_example:
  "processParticipants 5 envOk cfgOk colsOk [pZed] st0 = Some
    (\<lparr>total_count = 1, done_count = 0, skipped_count = 0, errors_count = 1\<rparr>,
     \<lparr>lastApiCallAt = 100030, nDrive = 2, nSheets = 2, nNow = 5, nRandom = 1\<rparr>,
     [FilesList (ChildrenOf ''P'' []), Sleep Throttle 2497,
      FilesList (ChildrenOf ''f1'' []), ValuesUpdate ''E'' 6 (Text ''FALSE''),
      ValuesUpdate ''F'' 6 (Log 100040 (FolderNotFound ''Zed''))])"
  by code_simp


text \<open>
  C5, amended.  When a record with a valid email, not seen before and not marked shared, has no
  cached folder id and the search returns no folder (\<open>null\<close> or the empty id), the loop body
  counts it in \<open>total\<close> and in \<open>errors\<close> (not in \<open>done\<close> or \<open>skipped\<close>), and after the search its
  provider calls are the two sheet writes: \<open>FALSE\<close> into the isFolderExists cell, then the
  \<open>FOLDER NOT FOUND\<close> line into LastLog.  The loop goes on with the next record.
\<close>

theorem folder_not_found_outcome:
  assumes "includesStr (email p) ''@''" and "dedupKey p \<notin> seen" and "\<not> markedShared p"
    and "folderId p = []"
    and "findFolderByName fuel env cfg (nama p) (parentFolderId cfg) st = Some (found, st1, e1)"
    and "found = None \<or> found = Some []"
  shows "\<exists>st2 e2.
     processOne fuel env cfg cols p (sts, seen, st)
       = Some ((sts\<lparr>total_count := total_count sts + 1, errors_count := errors_count sts + 1\<rparr>,
                insert (dedupKey p) seen, st2), e1 @ e2) \<and>
     calls e2 = [ValuesUpdate (colOf (isFolderExistsCol cols) ''E'') (rowIndex p) (Text ''FALSE''),
                 ValuesUpdate (colOf (lastLogCol cols) ''F'') (rowIndex p)
                   (Log (dateNow env (nNow st1)) (FolderNotFound (nama p)))] \<and>
     processAll fuel env cfg cols (p # rest) (sts, seen, st)
       = (case processAll fuel env cfg cols rest
                 (sts\<lparr>total_count := total_count sts + 1, errors_count := errors_count sts + 1\<rparr>,
                  insert (dedupKey p) seen, st2) of
            None \<Rightarrow> None
          | Some (acc2, e3) \<Rightarrow> Some (acc2, (e1 @ e2) @ e3))"
proof -
  let ?sts = "sts\<lparr>total_count := total_count sts + 1\<rparr>"
  obtain st2 e2 where
    m: "folderMissing env cols p ?sts st1 = ((?sts\<lparr>errors_count := errors_count ?sts + 1\<rparr>, st2), e2)"
    and c: "calls e2 = [ValuesUpdate (colOf (isFolderExistsCol cols) ''E'') (rowIndex p) (Text ''FALSE''),
                 ValuesUpdate (colOf (lastLogCol cols) ''F'') (rowIndex p)
                   (Log (dateNow env (nNow st1)) (FolderNotFound (nama p)))]"
    using folderMissing_result[of env cols p ?sts st1] by blast
  have one: "processOne fuel env cfg cols p (sts, seen, st)
       = Some ((sts\<lparr>total_count := total_count sts + 1, errors_count := errors_count sts + 1\<rparr>,
                insert (dedupKey p) seen, st2), e1 @ e2)"
    using assms m by (auto simp: processOne_def markedShared_def Let_def)
  show ?thesis
    using one c by (intro exI conjI) (assumption, assumption, simp)
qed


theorem folder_not_found_outcome_witness:
  "\<exists>st2 e2.
     processOne 5 envOk cfgOk colsOk pZed (stats0, {}, st0)
       = Some ((stats0\<lparr>total_count := total_count stats0 + 1,
                        errors_count := errors_count stats0 + 1\<rparr>, {dedupKey pZed}, st2),
               [FilesList (ChildrenOf ''P'' []), Sleep Throttle 2497,
                FilesList (ChildrenOf ''f1'' [])] @ e2) \<and>
     calls e2 = [ValuesUpdate ''E'' 6 (Text ''FALSE''),
                 ValuesUpdate ''F'' 6 (Log 100040 (FolderNotFound ''Zed''))]"
proof -
  have h1: "includesStr (email pZed) ''@''" by code_simp
  have h2: "dedupKey pZed \<notin> {}" by simp
  have h3: "\<not> markedShared pZed" by code_simp
  have h4: "folderId pZed = []" by (simp add: pZed_def)
  have c1: "colOf (isFolderExistsCol colsOk) ''E'' = ''E''" by code_simp
  have c2: "colOf (lastLogCol colsOk) ''F'' = ''F''" by code_simp
  have c3: "rowIndex pZed = 6" "nama pZed = ''Zed''" by (simp_all add: pZed_def)
  have c4: "dateNow envOk
      (nNow \<lparr>lastApiCallAt = 100030, nDrive = 2, nSheets = 0, nNow = 4, nRandom = 1\<rparr>) = 100040"
    by (simp add: envOk_def)
  from folder_not_found_outcome [OF h1 h2 h3 h4 find_pZed, of colsOk stats0 "[]"]
  obtain st2 e2 where
    a: "processOne 5 envOk cfgOk colsOk pZed (stats0, {}, st0)
       = Some ((stats0\<lparr>total_count := total_count stats0 + 1,
                        errors_count := errors_count stats0 + 1\<rparr>, {dedupKey pZed}, st2),
               [FilesList (ChildrenOf ''P'' []), Sleep Throttle 2497,
                FilesList (ChildrenOf ''f1'' [])] @ e2)"
    and b: "calls e2 = [ValuesUpdate (colOf (isFolderExistsCol colsOk) ''E'') (rowIndex pZed) (Text ''FALSE''),
                 ValuesUpdate (colOf (lastLogCol colsOk) ''F'') (rowIndex pZed)
                   (Log (dateNow envOk
      (nNow \<lparr>lastApiCallAt = 100030, nDrive = 2, nSheets = 0, nNow = 4, nRandom = 1\<rparr>)) (FolderNotFound (nama pZed)))]"
    by blast
  from b have "calls e2 = [ValuesUpdate ''E'' 6 (Text ''FALSE''),
                 ValuesUpdate ''F'' 6 (Log 100040 (FolderNotFound ''Zed''))]"
    unfolding c1 c2 c3 c4 .
  with a show ?thesis by blast
qed

section \<open>Duplicates\<close>

lemma lowerChar_idem [simp]: "lowerChar (lowerChar c) = lowerChar c"
proof -
  have lt: "(of_char c :: nat) < 256" by simp
  show ?thesis
    using lt by (auto simp add: lowerChar_def Let_def)
qed

lemma toLowerCase_idem [simp]: "toLowerCase (toLowerCase s) = toLowerCase s"
  by (simp add: toLowerCase_def)




























section \<open>updateCell and failed sheet writes\<close>

lemma noWarnings_append [simp]: "noWarnings (xs @ ys) = noWarnings xs @ noWarnings ys"
  by (simp add: noWarnings_def)

lemma noWarnings_simps [simp]:
  "noWarnings [] = []"
  "noWarnings (Warning c r # es) = noWarnings es"
  "noWarnings (ValuesUpdate c r v # es) = ValuesUpdate c r v # noWarnings es"
  "noWarnings (Sleep w d # es) = Sleep w d # noWarnings es"
  by (simp_all add: noWarnings_def)

lemma updateCell_eq:
  "updateCell env row col v st =
     (st\<lparr>nSheets := nSheets st + 1\<rparr>,
      ValuesUpdate col row v #
        (if isl (valuesUpdate env (nSheets st) col row v) then [Warning col row] else []))"
  by (simp add: updateCell_def valuesUpdateCall_def split: sum.splits)

lemma updateCell_fst [simp]: "fst (updateCell env row col v st) = st\<lparr>nSheets := nSheets st + 1\<rparr>"
  by (simp add: updateCell_eq)

lemma updateCell_noWarnings [simp]:
  "noWarnings (snd (updateCell env row col v st)) = [ValuesUpdate col row v]"
  by (simp add: updateCell_eq)

lemma updateLog_fst [simp]:
  "fst (updateLog env row col msg st) = st\<lparr>nNow := nNow st + 1, nSheets := nSheets st + 1\<rparr>"
  by (simp add: updateLog_def getCurrentTimestamp_def)

lemma updateLog_noWarnings [simp]:
  "noWarnings (snd (updateLog env row col msg st))
     = [ValuesUpdate col row (Log (dateNow env (nNow st)) msg)]"
  by (simp add: updateLog_def getCurrentTimestamp_def)

subsection \<open>Nothing but updateCell reads the answers of the spreadsheet\<close>

lemma throttle_sheet [simp]: "throttle (env\<lparr>valuesUpdate := u\<rparr>) cfg st = throttle env cfg st"
  by (simp add: throttle_def Let_def)

lemma withRetry_sheet [simp]:
  "withRetry (env\<lparr>valuesUpdate := u\<rparr>) cfg N resp ev attempt st = withRetry env cfg N resp ev attempt st"
proof (induction "N - attempt" arbitrary: attempt st)
  case 0
  obtain st1 e1 where t: "throttle env cfg st = (st1, e1)" by (cases "throttle env cfg st")
  then have t': "throttle (env\<lparr>valuesUpdate := u\<rparr>) cfg st = (st1, e1)" by simp
  from 0 show ?case
    by (simp add: withRetry_unfold[OF t] withRetry_unfold[OF t'] split: sum.splits)
next
  case (Suc k)
  obtain st1 e1 where t: "throttle env cfg st = (st1, e1)" by (cases "throttle env cfg st")
  then have t': "throttle (env\<lparr>valuesUpdate := u\<rparr>) cfg st = (st1, e1)" by simp
  have k: "k = N - Suc attempt" using Suc.hyps(2) by simp
  show ?case
    by (simp add: withRetry_unfold[OF t] withRetry_unfold[OF t'] Suc.hyps(1)[OF k] split: sum.splits)
qed

lemma listPages_sheet [simp]:
  "listPages fuel (env\<lparr>valuesUpdate := u\<rparr>) cfg parentId acc tok st
     = listPages fuel env cfg parentId acc tok st"
  by (induction fuel arbitrary: acc tok st) (simp_all add: Let_def split: prod.splits sum.splits)

lemma listSubfolders_sheet [simp]:
  "listSubfolders fuel (env\<lparr>valuesUpdate := u\<rparr>) cfg parentId st
     = listSubfolders fuel env cfg parentId st"
  by (simp add: listSubfolders_def)

lemma bfs_sheet [simp]:
  "bfs fuel (env\<lparr>valuesUpdate := u\<rparr>) cfg t queue st = bfs fuel env cfg t queue st"
proof (induction fuel arbitrary: queue st)
  case 0
  then show ?case by (cases queue) simp_all
next
  case (Suc n)
  show ?case
  proof (cases queue)
    case Nil
    then show ?thesis by simp
  next
    case (Cons c q)
    obtain cid depth where c: "c = (cid, depth)" by (cases c)
    show ?thesis unfolding Cons c
      by (simp add: Suc.IH split: option.splits sum.splits prod.splits)
  qed
qed

lemma findFolderByName_sheet [simp]:
  "findFolderByName fuel (env\<lparr>valuesUpdate := u\<rparr>) cfg name parent st
     = findFolderByName fuel env cfg name parent st"
  by (simp add: findFolderByName_def globalSearchLoop_def)

lemma hasPermission_sheet [simp]:
  "hasPermission (env\<lparr>valuesUpdate := u\<rparr>) cfg fileId em rl st = hasPermission env cfg fileId em rl st"
  by (simp add: hasPermission_def listPermissionsLoop_def)

lemma grantPermission_sheet [simp]:
  "grantPermission (env\<lparr>valuesUpdate := u\<rparr>) cfg fileId em st = grantPermission env cfg fileId em st"
  by (simp add: grantPermission_def)

lemma grantStage_sheet:
  "quiet (grantStage (env\<lparr>valuesUpdate := u\<rparr>) cfg cols p fileId sts st)
     = quiet (grantStage env cfg cols p fileId sts st)"
  by (simp add: quiet_def grantStage_def Let_def case_prod_unfold getCurrentTimestamp_def
      split: sum.splits)

lemma folderMissing_sheet:
  "quiet (folderMissing (env\<lparr>valuesUpdate := u\<rparr>) cols p sts st)
     = quiet (folderMissing env cols p sts st)"
  by (simp add: quiet_def folderMissing_def Let_def case_prod_unfold)


lemma folderFound_sheet:
  "quiet (folderFound (env\<lparr>valuesUpdate := u\<rparr>) cfg cols p fileId sts st)
     = quiet (folderFound env cfg cols p fileId sts st)"
proof -
  have g: "\<And>s. fst (grantStage (env\<lparr>valuesUpdate := u\<rparr>) cfg cols p fileId sts s)
              = fst (grantStage env cfg cols p fileId sts s) \<and>
            noWarnings (snd (grantStage (env\<lparr>valuesUpdate := u\<rparr>) cfg cols p fileId sts s))
              = noWarnings (snd (grantStage env cfg cols p fileId sts s))"
    using grantStage_sheet[of u env cfg cols p fileId sts] by (simp add: quiet_def)
  show ?thesis
    by (simp add: quiet_def folderFound_def Let_def case_prod_unfold g)
qed

lemma quiet_pair [simp]: "quiet (a, e) = (a, noWarnings e)"
  by (simp add: quiet_def)

lemma processOne_sheet:
  "map_option quiet (processOne fuel (env\<lparr>valuesUpdate := u\<rparr>) cfg cols p acc)
     = map_option quiet (processOne fuel env cfg cols p acc)"
proof -
  obtain sts seen st where acc: "acc = (sts, seen, st)" by (cases acc)
  have m: "\<And>s t. fst (folderMissing (env\<lparr>valuesUpdate := u\<rparr>) cols p s t)
              = fst (folderMissing env cols p s t) \<and>
            noWarnings (snd (folderMissing (env\<lparr>valuesUpdate := u\<rparr>) cols p s t))
              = noWarnings (snd (folderMissing env cols p s t))"
    using folderMissing_sheet[of u env cols p] by (simp add: quiet_def)
  have f: "\<And>i s t. fst (folderFound (env\<lparr>valuesUpdate := u\<rparr>) cfg cols p i s t)
              = fst (folderFound env cfg cols p i s t) \<and>
            noWarnings (snd (folderFound (env\<lparr>valuesUpdate := u\<rparr>) cfg cols p i s t))
              = noWarnings (snd (folderFound env cfg cols p i s t))"
    using folderFound_sheet[of u env cfg cols p] by (simp add: quiet_def)
  show ?thesis
    unfolding acc
    by (simp add: processOne_def Let_def case_prod_unfold m f split: option.splits)
qed

lemma processOne_sheet_Some:
  "processOne fuel env cfg cols p acc = Some (acc1, e1) \<Longrightarrow>
     \<exists>e1'. processOne fuel (env\<lparr>valuesUpdate := u\<rparr>) cfg cols p acc = Some (acc1, e1') \<and>
           noWarnings e1' = noWarnings e1"
  using processOne_sheet[of fuel u env cfg cols p acc]
  by (cases "processOne fuel (env\<lparr>valuesUpdate := u\<rparr>) cfg cols p acc") auto

lemma processOne_sheet_None:
  "processOne fuel env cfg cols p acc = None \<Longrightarrow>
     processOne fuel (env\<lparr>valuesUpdate := u\<rparr>) cfg cols p acc = None"
  using processOne_sheet[of fuel u env cfg cols p acc] by simp

lemma processAll_sheet:
  "map_option quiet (processAll fuel (env\<lparr>valuesUpdate := u\<rparr>) cfg cols ps acc)
     = map_option quiet (processAll fuel env cfg cols ps acc)"
proof (induction ps arbitrary: acc)
  case Nil
  show ?case by simp
next
  case (Cons p ps)
  show ?case
  proof (cases "processOne fuel env cfg cols p acc")
    case None
    with processOne_sheet_None[OF None, of u] show ?thesis by simp
  next
    case (Some r)
    obtain acc1 e1 where r: "r = (acc1, e1)" by (cases r)
    from processOne_sheet_Some[OF Some[unfolded r], of u] obtain e1' where
      one': "processOne fuel (env\<lparr>valuesUpdate := u\<rparr>) cfg cols p acc = Some (acc1, e1')"
      and q: "noWarnings e1' = noWarnings e1" by blast
    show ?thesis
      using Cons.IH[of acc1] q
      by (cases "processAll fuel (env\<lparr>valuesUpdate := u\<rparr>) cfg cols ps acc1";
          cases "processAll fuel env cfg cols ps acc1")
         (auto simp: Some r one')
  qed
qed


lemma processParticipants_sheet:
  "map_option (\<lambda>(sts, st', evs). (sts, st', noWarnings evs))
       (processParticipants fuel (env\<lparr>valuesUpdate := u\<rparr>) cfg cols ps st)
     = map_option (\<lambda>(sts, st', evs). (sts, st', noWarnings evs))
         (processParticipants fuel env cfg cols ps st)"
  using processAll_sheet[of fuel u env cfg cols "workingParticipants cfg ps" "(stats0, {}, st)"]
  by (cases "processAll fuel (env\<lparr>valuesUpdate := u\<rparr>) cfg cols (workingParticipants cfg ps) (stats0, {}, st)";
      cases "processAll fuel env cfg cols (workingParticipants cfg ps) (stats0, {}, st)")
     (auto simp: processParticipants_def)

text \<open>
  C10.  \<open>updateCell\<close> has no error to give: whatever the spreadsheet answers, it makes the one
  write call, prints the warning when the call failed, and returns with the same state.  A pass
  under a spreadsheet that answers differently (any \<open>u\<close> in place of \<open>valuesUpdate env\<close>) ends with
  the same counters and the same state, and its events differ in the warnings only: no failed
  write aborts a record, moves it to the error branch or counts as an error.  Under a
  spreadsheet that refuses every write the grant of the example record succeeds (\<open>done = 1\<close>,
  \<open>errors = 0\<close>), with a warning after each of the four writes.
\<close>

theorem failed_sheet_writes_are_ignored:
  "updateCell env row col v st =
     (st\<lparr>nSheets := nSheets st + 1\<rparr>,
      ValuesUpdate col row v #
        (if isl (valuesUpdate env (nSheets st) col row v) then [Warning col row] else [])) \<and>
   map_option (\<lambda>(sts, st', evs). (sts, st', noWarnings evs))
       (processParticipants fuel (env\<lparr>valuesUpdate := u\<rparr>) cfg cols ps st)
     = map_option (\<lambda>(sts, st', evs). (sts, st', noWarnings evs))
         (processParticipants fuel env cfg cols ps st) \<and>
   processParticipants 5 envNoSheet cfgOk colsOk [pA] st0 = Some
     (\<lparr>total_count = 1, done_count = 1, skipped_count = 0, errors_count = 0\<rparr>,
      \<lparr>lastApiCallAt = 100050, nDrive = 3, nSheets = 4, nNow = 7, nRandom = 3\<rparr>,
      [FilesList (ChildrenOf ''P'' []), ValuesUpdate ''E'' 2 (Text ''TRUE''),
       Warning ''E'' 2, ValuesUpdate ''C'' 2 (Text ''f1''), Warning ''C'' 2,
       Sleep Throttle 2497, PermissionsList ''f1'', Sleep Throttle 2497,
       PermissionsCreate ''f1'' ''jane@ex.com'' ''reader'',
       ValuesUpdate ''D'' 2 (Text ''TRUE''), Warning ''D'' 2,
       ValuesUpdate ''F'' 2 (Log 100060 (Done ''GRANTED'' ''reader'' ''jane@ex.com'')),
       Warning ''F'' 2, Sleep Steady 1257])"
proof (intro conjI)
  show "updateCell env row col v st =
     (st\<lparr>nSheets := nSheets st + 1\<rparr>,
      ValuesUpdate col row v #
        (if isl (valuesUpdate env (nSheets st) col row v) then [Warning col row] else []))"
    by (rule updateCell_eq)
  show "map_option (\<lambda>(sts, st', evs). (sts, st', noWarnings evs))
       (processParticipants fuel (env\<lparr>valuesUpdate := u\<rparr>) cfg cols ps st)
     = map_option (\<lambda>(sts, st', evs). (sts, st', noWarnings evs))
         (processParticipants fuel env cfg cols ps st)"
    by (rule processParticipants_sheet)
  show "processParticipants 5 envNoSheet cfgOk colsOk [pA] st0 = Some
     (\<lparr>total_count = 1, done_count = 1, skipped_count = 0, errors_count = 0\<rparr>,
      \<lparr>lastApiCallAt = 100050, nDrive = 3, nSheets = 4, nNow = 7, nRandom = 3\<rparr>,
      [FilesList (ChildrenOf ''P'' []), ValuesUpdate ''E'' 2 (Text ''TRUE''),
       Warning ''E'' 2, ValuesUpdate ''C'' 2 (Text ''f1''), Warning ''C'' 2,
       Sleep Throttle 2497, PermissionsList ''f1'', Sleep Throttle 2497,
       PermissionsCreate ''f1'' ''jane@ex.com'' ''reader'',
       ValuesUpdate ''D'' 2 (Text ''TRUE''), Warning ''D'' 2,
       ValuesUpdate ''F'' 2 (Log 100060 (Done ''GRANTED'' ''reader'' ''jane@ex.com'')),
       Warning ''F'' 2, Sleep Steady 1257])"
    by code_simp
qed

section \<open>hasPermission\<close>

lemma retryTrace_call: "retryTrace ev n k evs \<Longrightarrow> ev \<in> set evs"
proof -
  assume "retryTrace ev n k evs"
  then obtain js where "noThrottle evs = retryPattern ev n js" by (auto simp: retryTrace_def)
  then have "ev \<in> set (noThrottle evs)" by (cases js) simp_all
  then show ?thesis by (simp add: noThrottle_def)
qed

lemma isThrottleSleep_calls [simp]:
  "\<not> isThrottleSleep (PermissionsList f)" "\<not> isThrottleSleep (FilesList q)"
  "\<not> isThrottleSleep (PermissionsCreate f e r)"
  by (simp_all add: isThrottleSleep_def)

lemma hasPermission_cases:
  "\<exists>k st' evs. k < 5 \<and>
     (\<forall>i<k. retryableFailure (permissionsList env (nDrive st + i) fileId)) \<and>
     (\<not> retryableFailure (permissionsList env (nDrive st + k) fileId) \<or> k = 4) \<and>
     hasPermission env cfg fileId em rl st =
       ((case permissionsList env (nDrive st + k) fileId of
           Inr perms \<Rightarrow> list_ex (permissionMatches em rl) perms
         | Inl err \<Rightarrow> False), st', evs) \<and>
     nDrive st' = nDrive st + k + 1 \<and> retryTrace (PermissionsList fileId) 1 k evs"
proof -
  from withRetry_cases[of 0 5 "PermissionsList fileId" "\<lambda>n. permissionsList env n fileId" st env cfg]
  obtain k st' evs where k: "k < 5"
    "\<forall>i<k. retryableFailure (permissionsList env (nDrive st + i) fileId)"
    "\<not> retryableFailure (permissionsList env (nDrive st + k) fileId) \<or> k + 1 = 5"
    "withRetry env cfg 5 (\<lambda>n. permissionsList env n fileId) (PermissionsList fileId) 0 st
       = (permissionsList env (nDrive st + k) fileId, st', evs)"
    "nDrive st' = nDrive st + k + 1" "retryTrace (PermissionsList fileId) 1 k evs"
    by auto
  show ?thesis
    apply (rule exI[of _ k], rule exI[of _ st'], rule exI[of _ evs])
    using k by (auto simp: hasPermission_def listPermissionsLoop_def split: sum.splits)
qed

lemma stop_index_unique:
  assumes "(\<forall>i<k. P i)" "\<not> P k \<or> k = m" "k \<le> (m::nat)"
    and "(\<forall>i<k'. P i)" "\<not> P k' \<or> k' = m" "k' \<le> m"
  shows "k = k'"
proof (rule ccontr)
  assume "k \<noteq> k'"
  then consider "k < k'" | "k' < k" by linarith
  then show False
  proof cases
    case 1
    with assms(4) have "P k" by blast
    with assms(2) have "k = m" by blast
    with 1 assms(6) show False by simp
  next
    case 2
    with assms(1) have "P k'" by blast
    with assms(5) have "k' = m" by blast
    with 2 assms(3) show False by simp
  qed
qed

lemma hasPermission_at:
  assumes "k < 5"
    and "\<forall>i<k. retryableFailure (permissionsList env (nDrive st + i) fileId)"
    and "\<not> retryableFailure (permissionsList env (nDrive st + k) fileId) \<or> k = 4"
  shows "fst (hasPermission env cfg fileId em rl st) =
       (case permissionsList env (nDrive st + k) fileId of
           Inr perms \<Rightarrow> list_ex (permissionMatches em rl) perms
         | Inl err \<Rightarrow> False)"
proof -
  from hasPermission_cases[of env st fileId cfg em rl] obtain k' st' evs where k': "k' < 5"
    "\<forall>i<k'. retryableFailure (permissionsList env (nDrive st + i) fileId)"
    "\<not> retryableFailure (permissionsList env (nDrive st + k') fileId) \<or> k' = 4"
    "hasPermission env cfg fileId em rl st =
       ((case permissionsList env (nDrive st + k') fileId of
           Inr perms \<Rightarrow> list_ex (permissionMatches em rl) perms
         | Inl err \<Rightarrow> False), st', evs)"
    by blast
  have "k = k'"
    using assms(2,3) k'(2,3) assms(1) k'(1)
    by (intro stop_index_unique[of k "\<lambda>i. retryableFailure (permissionsList env (nDrive st + i) fileId)" 4 k'])
       simp_all
  with k'(4) show ?thesis by simp
qed


lemma hasPermission_all_fail:
  assumes "\<forall>n. isl (permissionsList env n fileId)"
  shows "fst (hasPermission env cfg fileId em rl st) = False"
proof -
  from hasPermission_cases[of env st fileId cfg em rl] obtain k st' evs where
    h: "hasPermission env cfg fileId em rl st =
       ((case permissionsList env (nDrive st + k) fileId of
           Inr perms \<Rightarrow> list_ex (permissionMatches em rl) perms
         | Inl err \<Rightarrow> False), st', evs)"
    by blast
  from assms have "isl (permissionsList env (nDrive st + k) fileId)" by blast
  with h show ?thesis by (auto simp: isl_def)
qed

lemma grantPermission_call:
  assumes "\<not> dryRun cfg"
  shows "PermissionsCreate fileId em ''reader'' \<in> set (snd (snd (grantPermission env cfg fileId em st)))"
proof -
  from withRetry_cases[of 0 6 "PermissionsCreate fileId em ''reader''"
      "\<lambda>n. permissionsCreate env n fileId em" st env cfg]
  obtain r st' evs where
    w: "withRetry env cfg 6 (\<lambda>n. permissionsCreate env n fileId em)
          (PermissionsCreate fileId em ''reader'') 0 st = (r, st', evs)"
    and t: "retryTrace (PermissionsCreate fileId em ''reader'') 1 (nDrive st' - nDrive st - 1) evs"
    by auto
  from retryTrace_call[OF t] w assms show ?thesis
    by (auto simp: grantPermission_def split: sum.splits)
qed

lemma grantStage_call:
  assumes "\<not> dryRun cfg"
  shows "PermissionsCreate fileId (email p) ''reader''
           \<in> set (snd (grantStage env cfg cols p fileId sts st))"
  using grantPermission_call[OF assms, of fileId "email p" env st]
  by (auto simp: grantStage_def Let_def split: prod.splits sum.splits)

lemma folderFound_grants:
  assumes "\<not> dryRun cfg" and "\<forall>n. isl (permissionsList env n fileId)"
  shows "PermissionsCreate fileId (email p) ''reader''
           \<in> set (snd (folderFound env cfg cols p fileId sts st))"
proof -
  have h: "\<And>s. \<not> fst (hasPermission env cfg fileId (email p) ''reader'' s)"
    using hasPermission_all_fail[OF assms(2)] by simp
  have g: "\<And>s. PermissionsCreate fileId (email p) ''reader''
           \<in> set (snd (grantStage env cfg cols p fileId sts s))"
    using grantStage_call[OF assms(1)] by simp
  show ?thesis
    using h g by (simp add: folderFound_def Let_def case_prod_unfold)
qed

lemma retryable_examples: "\<not> isRetryableRateLimit err500" "isRetryableRateLimit err429"
  by code_simp+


text \<open>
  C8.  \<open>hasPermission\<close> lists the access entries at most five times, on Drive calls number
  \<open>nDrive st\<close>, \<open>nDrive st + 1\<close>, ...  When the attempts before attempt \<open>k + 1\<close> fail with a rate
  limit and attempt \<open>k + 1\<close> fails with an error that is not a rate limit, or is the fifth
  attempt, the answer is \<open>false\<close>: no error leaves the function.  When attempt \<open>k + 1\<close> succeeds,
  the answer is whether a listed entry matches.  The answer is \<open>true\<close> only when a listing
  succeeded and one of its entries has an email address equal to the email up to letter case and
  exactly the role.  And when every listing of the folder fails, outside simulation mode, the
  part of the loop body that follows the folder search does call \<open>drive.permissions.create\<close> for
  the record.
\<close>

theorem hasPermission_fails_open:
  "(\<forall>k err. k < 5 \<and> (\<forall>i<k. retryableFailure (permissionsList env (nDrive st + i) fileId)) \<and>
        permissionsList env (nDrive st + k) fileId = Inl err \<and>
        (\<not> isRetryableRateLimit err \<or> k = 4) \<longrightarrow>
        fst (hasPermission env cfg fileId em rl st) = False) \<and>
   (\<forall>k perms. k < 5 \<and> (\<forall>i<k. retryableFailure (permissionsList env (nDrive st + i) fileId)) \<and>
        permissionsList env (nDrive st + k) fileId = Inr perms \<longrightarrow>
        fst (hasPermission env cfg fileId em rl st) = list_ex (permissionMatches em rl) perms) \<and>
   (fst (hasPermission env cfg fileId em rl st) \<longrightarrow>
      (\<exists>k perms q. k < 5 \<and> permissionsList env (nDrive st + k) fileId = Inr perms \<and>
         q \<in> set perms \<and> emailAddress q \<noteq> [] \<and>
         toLowerCase (emailAddress q) = toLowerCase em \<and> role q = rl)) \<and>
   (\<not> dryRun cfg \<and> (\<forall>n. isl (permissionsList env n fileId)) \<longrightarrow>
      PermissionsCreate fileId (email p) ''reader''
        \<in> set (snd (folderFound env cfg cols p fileId sts st)))"
proof (intro conjI allI impI)
  fix k err
  assume a: "k < 5 \<and> (\<forall>i<k. retryableFailure (permissionsList env (nDrive st + i) fileId)) \<and>
        permissionsList env (nDrive st + k) fileId = Inl err \<and>
        (\<not> isRetryableRateLimit err \<or> k = 4)"
  then have "\<not> retryableFailure (permissionsList env (nDrive st + k) fileId) \<or> k = 4"
    by (auto simp: retryableFailure_def)
  with a hasPermission_at[of k env st fileId cfg em rl]
  show "fst (hasPermission env cfg fileId em rl st) = False" by simp
next
  fix k perms
  assume a: "k < 5 \<and> (\<forall>i<k. retryableFailure (permissionsList env (nDrive st + i) fileId)) \<and>
        permissionsList env (nDrive st + k) fileId = Inr perms"
  then have "\<not> retryableFailure (permissionsList env (nDrive st + k) fileId) \<or> k = 4"
    by (simp add: retryableFailure_def)
  with a hasPermission_at[of k env st fileId cfg em rl]
  show "fst (hasPermission env cfg fileId em rl st) = list_ex (permissionMatches em rl) perms"
    by simp
next
  assume t: "fst (hasPermission env cfg fileId em rl st)"
  from hasPermission_cases[of env st fileId cfg em rl] obtain k st' evs where k: "k < 5"
    and h: "hasPermission env cfg fileId em rl st =
       ((case permissionsList env (nDrive st + k) fileId of
           Inr perms \<Rightarrow> list_ex (permissionMatches em rl) perms
         | Inl err \<Rightarrow> False), st', evs)"
    by blast
  from t h obtain perms where p: "permissionsList env (nDrive st + k) fileId = Inr perms"
    "list_ex (permissionMatches em rl) perms"
    by (cases "permissionsList env (nDrive st + k) fileId") auto
  from p(2) obtain q where "q \<in> set perms" "permissionMatches em rl q"
    by (auto simp: list_ex_iff)
  with k p(1) show "\<exists>k perms q. k < 5 \<and> permissionsList env (nDrive st + k) fileId = Inr perms \<and>
         q \<in> set perms \<and> emailAddress q \<noteq> [] \<and>
         toLowerCase (emailAddress q) = toLowerCase em \<and> role q = rl"
    unfolding permissionMatches_def by blast
next
  assume "\<not> dryRun cfg \<and> (\<forall>n. isl (permissionsList env n fileId))"
  then show "PermissionsCreate fileId (email p) ''reader''
        \<in> set (snd (folderFound env cfg cols p fileId sts st))"
    using folderFound_grants by blast
qed


theorem hasPermission_fails_open_witness:
  "fst (hasPermission envList500 cfgOk ''f1'' ''jane@ex.com'' ''reader'' st0) = False \<and>
   fst (hasPermission envList429 cfgOk ''f1'' ''jane@ex.com'' ''reader'' st0) = False \<and>
   fst (hasPermission envOk cfgOk ''f1'' ''jane@ex.com'' ''reader'' st0) = False \<and>
   PermissionsCreate ''f1'' (email pA) ''reader''
        \<in> set (snd (folderFound envList429 cfgOk colsOk pA ''f1'' stats0 st0))"
proof -
  have a: "0 < (5::nat) \<and>
     (\<forall>i<0. retryableFailure (permissionsList envList500 (nDrive st0 + i) ''f1'')) \<and>
     permissionsList envList500 (nDrive st0 + 0) ''f1'' = Inl err500 \<and>
     (\<not> isRetryableRateLimit err500 \<or> (0::nat) = 4)"
    by (simp add: envList500_def retryable_examples)
  have b: "4 < (5::nat) \<and>
     (\<forall>i<4. retryableFailure (permissionsList envList429 (nDrive st0 + i) ''f1'')) \<and>
     permissionsList envList429 (nDrive st0 + 4) ''f1'' = Inl err429 \<and>
     (\<not> isRetryableRateLimit err429 \<or> (4::nat) = 4)"
    by (simp add: envList429_def retryableFailure_def retryable_examples)
  have c: "0 < (5::nat) \<and>
     (\<forall>i<0. retryableFailure (permissionsList envOk (nDrive st0 + i) ''f1'')) \<and>
     permissionsList envOk (nDrive st0 + 0) ''f1'' = Inr []"
    by (simp add: envOk_def)
  have d: "\<not> dryRun cfgOk \<and> (\<forall>n. isl (permissionsList envList429 n ''f1''))"
    by (simp add: cfgOk_def envList429_def)
  have 1: "fst (hasPermission envList500 cfgOk ''f1'' ''jane@ex.com'' ''reader'' st0) = False"
    using hasPermission_fails_open [THEN conjunct1, rule_format, OF a] .
  have 2: "fst (hasPermission envList429 cfgOk ''f1'' ''jane@ex.com'' ''reader'' st0) = False"
    using hasPermission_fails_open [THEN conjunct1, rule_format, OF b] .
  have 3: "fst (hasPermission envOk cfgOk ''f1'' ''jane@ex.com'' ''reader'' st0) = False"
    using hasPermission_fails_open [THEN conjunct2, THEN conjunct1, rule_format, OF c,
        of cfgOk "''jane@ex.com''" "''reader''"]
    by simp
  have 4: "PermissionsCreate ''f1'' (email pA) ''reader''
        \<in> set (snd (folderFound envList429 cfgOk colsOk pA ''f1'' stats0 st0))"
    using hasPermission_fails_open [THEN conjunct2, THEN conjunct2, THEN conjunct2, rule_format, OF d] .
  from 1 2 3 4 show ?thesis by blast
qed

section \<open>The retry policy of the three operations\<close>

lemma grantPermission_retry:
  assumes "\<not> dryRun cfg" and "k < 6"
    and "\<forall>i<k. retryableFailure (permissionsCreate env (nDrive st + i) fileId em)"
    and "\<not> retryableFailure (permissionsCreate env (nDrive st + k) fileId em) \<or> k = 5"
  shows "\<exists>st' evs.
      grantPermission env cfg fileId em st =
        ((case permissionsCreate env (nDrive st + k) fileId em of
            Inr d \<Rightarrow> Inr (Created d)
          | Inl err \<Rightarrow> Inl \<lparr>wop = ''drive.permissions.create'',
                              wctx = CtxPermission fileId em ''reader'', werr = err\<rparr>), st', evs) \<and>
      nDrive st' = nDrive st + k + 1 \<and>
      retryTrace (PermissionsCreate fileId em ''reader'') 1 k evs"
proof -
  have a: "0 + k < (6::nat)" using assms(2) by simp
  have c: "\<not> retryableFailure (permissionsCreate env (nDrive st + k) fileId em) \<or> 0 + k + 1 = (6::nat)"
    using assms(4) by auto
  from withRetry_outcome[of 0 k 6 "\<lambda>n. permissionsCreate env n fileId em" st
      "PermissionsCreate fileId em ''reader''" env cfg, OF a assms(3) c]
  obtain st' evs where
    w: "withRetry env cfg 6 (\<lambda>n. permissionsCreate env n fileId em)
          (PermissionsCreate fileId em ''reader'') 0 st
        = (permissionsCreate env (nDrive st + k) fileId em, st', evs)"
    and n: "nDrive st' = nDrive st + k + 1"
    and t: "retryTrace (PermissionsCreate fileId em ''reader'') (0 + 1) k evs"
    by auto
  show ?thesis
    apply (rule exI[of _ st'], rule exI[of _ evs])
    using w n t assms(1) by (simp add: grantPermission_def split: sum.splits)
qed

lemma listPermissionsLoop_retry:
  assumes "k < 5"
    and "\<forall>i<k. retryableFailure (permissionsList env (nDrive st + i) fileId)"
    and "\<not> retryableFailure (permissionsList env (nDrive st + k) fileId) \<or> k = 4"
  shows "\<exists>st' evs.
      listPermissionsLoop env cfg fileId em rl st =
        ((case permissionsList env (nDrive st + k) fileId of
            Inr perms \<Rightarrow> Inr (list_ex (permissionMatches em rl) perms)
          | Inl err \<Rightarrow> Inl \<lparr>wop = ''drive.permissions.list'',
                              wctx = CtxPermission fileId em rl, werr = err\<rparr>), st', evs) \<and>
      nDrive st' = nDrive st + k + 1 \<and>
      retryTrace (PermissionsList fileId) 1 k evs"
proof -
  have a: "0 + k < (5::nat)" using assms(1) by simp
  have c: "\<not> retryableFailure (permissionsList env (nDrive st + k) fileId) \<or> 0 + k + 1 = (5::nat)"
    using assms(3) by auto
  from withRetry_outcome[of 0 k 5 "\<lambda>n. permissionsList env n fileId" st
      "PermissionsList fileId" env cfg, OF a assms(2) c]
  obtain st' evs where
    w: "withRetry env cfg 5 (\<lambda>n. permissionsList env n fileId) (PermissionsList fileId) 0 st
        = (permissionsList env (nDrive st + k) fileId, st', evs)"
    and n: "nDrive st' = nDrive st + k + 1"
    and t: "retryTrace (PermissionsList fileId) (0 + 1) k evs"
    by auto
  show ?thesis
    apply (rule exI[of _ st'], rule exI[of _ evs])
    using w n t by (simp add: listPermissionsLoop_def split: sum.splits)
qed

lemma first_match:
  "(case filter P xs of [] \<Rightarrow> None | x # _ \<Rightarrow> Some (folder_id x))
     = map_option folder_id (find P xs)"
  by (induction xs) (auto split: list.splits)

lemma globalSearchLoop_retry:
  assumes "k < 5"
    and "\<forall>i<k. retryableFailure (filesList env (nDrive st + i) (NameContains name))"
    and "\<not> retryableFailure (filesList env (nDrive st + k) (NameContains name)) \<or> k = 4"
  shows "\<exists>st' evs.
      globalSearchLoop env cfg name st =
        ((case filesList env (nDrive st + k) (NameContains name) of
            Inr pg \<Rightarrow>
              Inr (map_option folder_id
                     (find (\<lambda>f. toLowerCase (folder_name f) = toLowerCase name) (files pg)))
          | Inl err \<Rightarrow> Inl \<lparr>wop = ''drive.files.list'',
                              wctx = CtxQuery (NameContains name), werr = err\<rparr>), st', evs) \<and>
      nDrive st' = nDrive st + k + 1 \<and>
      retryTrace (FilesList (NameContains name)) 1 k evs"
proof -
  have a: "0 + k < (5::nat)" using assms(1) by simp
  have c: "\<not> retryableFailure (filesList env (nDrive st + k) (NameContains name)) \<or> 0 + k + 1 = (5::nat)"
    using assms(3) by auto
  from withRetry_outcome[of 0 k 5 "\<lambda>n. filesList env n (NameContains name)" st
      "FilesList (NameContains name)" env cfg, OF a assms(2) c]
  obtain st' evs where
    w: "withRetry env cfg 5 (\<lambda>n. filesList env n (NameContains name))
          (FilesList (NameContains name)) 0 st
        = (filesList env (nDrive st + k) (NameContains name), st', evs)"
    and n: "nDrive st' = nDrive st + k + 1"
    and t: "retryTrace (FilesList (NameContains name)) (0 + 1) k evs"
    by auto
  show ?thesis
    apply (rule exI[of _ st'], rule exI[of _ evs])
    using w n t by (simp add: globalSearchLoop_def first_match split: sum.splits)
qed

lemma retryPattern_sleeps:
  "i < length js \<Longrightarrow> Sleep Backoff (backoffMs (m + i) + js ! i) \<in> set (retryPattern ev m js)"
proof (induction js arbitrary: m i)
  case Nil
  then show ?case by simp
next
  case (Cons j js)
  show ?case
  proof (cases i)
    case 0
    then show ?thesis by simp
  next
    case (Suc i')
    with Cons.prems have "i' < length js" by simp
    from Cons.IH[OF this, of "Suc m"] Suc show ?thesis by simp
  qed
qed

lemma retryTrace_sleeps:
  assumes "retryTrace ev m k evs" and "i < k"
  shows "\<exists>d. backoffMs (m + i) \<le> d \<and> d < backoffMs (m + i) + 500 \<and> Sleep Backoff d \<in> set evs"
proof -
  from assms(1) obtain js where js: "length js = k" "list_all (\<lambda>j. 0 \<le> j \<and> j < 500) js"
    "noThrottle evs = retryPattern ev m js"
    by (auto simp: retryTrace_def)
  from assms(2) js(1) have i: "i < length js" by simp
  with js(2) have b: "0 \<le> js ! i" "js ! i < 500" by (simp_all add: list_all_length)
  from retryPattern_sleeps[OF i, of m ev] js(3)
  have "Sleep Backoff (backoffMs (m + i) + js ! i) \<in> set (noThrottle evs)" by simp
  then have "Sleep Backoff (backoffMs (m + i) + js ! i) \<in> set evs" by (simp add: noThrottle_def)
  with b show ?thesis by (intro exI[of _ "backoffMs (m + i) + js ! i"]) simp
qed

lemma retryable_429: "retryableFailure (Inl err429 :: apierror + 'a)"
  using retryable_examples(2) by (simp add: retryableFailure_def)



text \<open>
  C4.  Each of the three retry loops (\<open>N = 6\<close> attempts for \<open>grantPermission\<close>, \<open>N = 5\<close> for the
  permission listing inside \<open>hasPermission\<close> and for the global folder search inside
  \<open>findFolderByName\<close>) makes its calls on the Drive call numbers \<open>nDrive st\<close>, \<open>nDrive st + 1\<close>, ...
  When the first \<open>k < N\<close> attempts fail with a rate limit and attempt \<open>k + 1\<close> succeeds, the loop
  returns the success (the created entry; whether an entry matches; the first folder of the page
  with the name), after \<open>k + 1\<close> calls, and its events are, throttle sleeps aside, the call, the
  backoff sleep, the call, ..., the call: the sleep after failed attempt \<open>n\<close> lasts
  \<open>min 60000 (2 ^ n * 1000)\<close> ms plus a jitter from 0 to 499.  When the first \<open>N - 1\<close> attempts
  fail with a rate limit and attempt \<open>N\<close> fails too, the loop stops after \<open>N\<close> calls, with the
  same sleeps between them, and raises the last error wrapped with the operation name and the
  context (the file id, email and role; the query).
\<close>

theorem retry_policy:
  "(k < 6 \<and> \<not> dryRun cfg \<and>
      (\<forall>i<k. retryableFailure (permissionsCreate env (nDrive st + i) fileId em)) \<longrightarrow>
      (\<forall>d. permissionsCreate env (nDrive st + k) fileId em = Inr d \<longrightarrow>
         (\<exists>st' evs. grantPermission env cfg fileId em st = (Inr (Created d), st', evs) \<and>
            nDrive st' = nDrive st + k + 1 \<and>
            retryTrace (PermissionsCreate fileId em ''reader'') 1 k evs)) \<and>
      (\<forall>err. k = 5 \<and> permissionsCreate env (nDrive st + k) fileId em = Inl err \<longrightarrow>
         (\<exists>st' evs. grantPermission env cfg fileId em st =
               (Inl \<lparr>wop = ''drive.permissions.create'',
                     wctx = CtxPermission fileId em ''reader'', werr = err\<rparr>, st', evs) \<and>
            nDrive st' = nDrive st + 6 \<and>
            retryTrace (PermissionsCreate fileId em ''reader'') 1 5 evs))) \<and>
   (k < 5 \<and>
      (\<forall>i<k. retryableFailure (permissionsList env (nDrive st + i) fileId)) \<longrightarrow>
      (\<forall>perms. permissionsList env (nDrive st + k) fileId = Inr perms \<longrightarrow>
         (\<exists>st' evs. listPermissionsLoop env cfg fileId em rl st = (Inr (list_ex (permissionMatches em rl) perms), st', evs) \<and>
            nDrive st' = nDrive st + k + 1 \<and>
            retryTrace (PermissionsList fileId) 1 k evs)) \<and>
      (\<forall>err. k = 4 \<and> permissionsList env (nDrive st + k) fileId = Inl err \<longrightarrow>
         (\<exists>st' evs. listPermissionsLoop env cfg fileId em rl st =
               (Inl \<lparr>wop = ''drive.permissions.list'',
                     wctx = CtxPermission fileId em rl, werr = err\<rparr>, st', evs) \<and>
            nDrive st' = nDrive st + 5 \<and>
            retryTrace (PermissionsList fileId) 1 4 evs))) \<and>
   (k < 5 \<and>
      (\<forall>i<k. retryableFailure (filesList env (nDrive st + i) (NameContains name))) \<longrightarrow>
      (\<forall>pg. filesList env (nDrive st + k) (NameContains name) = Inr pg \<longrightarrow>
         (\<exists>st' evs. globalSearchLoop env cfg name st = (Inr (map_option folder_id
                     (find (\<lambda>f. toLowerCase (folder_name f) = toLowerCase name) (files pg))), st', evs) \<and>
            nDrive st' = nDrive st + k + 1 \<and>
            retryTrace (FilesList (NameContains name)) 1 k evs)) \<and>
      (\<forall>err. k = 4 \<and> filesList env (nDrive st + k) (NameContains name) = Inl err \<longrightarrow>
         (\<exists>st' evs. globalSearchLoop env cfg name st =
               (Inl \<lparr>wop = ''drive.files.list'',
                     wctx = CtxQuery (NameContains name), werr = err\<rparr>, st', evs) \<and>
            nDrive st' = nDrive st + 5 \<and>
            retryTrace (FilesList (NameContains name)) 1 4 evs))) \<and>
   (\<forall>ev evs n. retryTrace ev 1 k evs \<and> 1 \<le> n \<and> n \<le> k \<longrightarrow>
      (\<exists>d. min 60000 (2 ^ n * 1000) \<le> d \<and> d < min 60000 (2 ^ n * 1000) + 500 \<and>
           Sleep Backoff d \<in> set evs))"
proof (intro conjI allI impI)
  fix d
  assume a: "k < 6 \<and> \<not> dryRun cfg \<and>
      (\<forall>i<k. retryableFailure (permissionsCreate env (nDrive st + i) fileId em))"
    and b: "permissionsCreate env (nDrive st + k) fileId em = Inr d"
  from a have a2: "k < 6"
    and a3: "\<forall>i<k. retryableFailure (permissionsCreate env (nDrive st + i) fileId em)"
    and a1: "\<not> dryRun cfg"
    by simp_all
  from b have c: "\<not> retryableFailure (permissionsCreate env (nDrive st + k) fileId em) \<or> k = 5"
    by (simp add: retryableFailure_def)
  from grantPermission_retry[OF a1 a2 a3 c] obtain st' evs where
    g: "grantPermission env cfg fileId em st =
        (case permissionsCreate env (nDrive st + k) fileId em of
            Inr d \<Rightarrow> Inr (Created d)
          | Inl err \<Rightarrow> Inl \<lparr>wop = ''drive.permissions.create'',
                     wctx = CtxPermission fileId em ''reader'', werr = err\<rparr>, st', evs)"
    and n: "nDrive st' = nDrive st + k + 1"
    and t: "retryTrace (PermissionsCreate fileId em ''reader'') 1 k evs"
    by blast
  from g have g': "grantPermission env cfg fileId em st = (Inr (Created d), st', evs)"
    unfolding b by simp
  from g' n t
  show "\<exists>st' evs. grantPermission env cfg fileId em st = (Inr (Created d), st', evs) \<and>
            nDrive st' = nDrive st + k + 1 \<and>
            retryTrace (PermissionsCreate fileId em ''reader'') 1 k evs"
    by blast
next
  fix err
  assume a: "k < 6 \<and> \<not> dryRun cfg \<and>
      (\<forall>i<k. retryableFailure (permissionsCreate env (nDrive st + i) fileId em))"
    and b: "k = 5 \<and> permissionsCreate env (nDrive st + k) fileId em = Inl err"
  from b have k5: "k = 5" and r: "permissionsCreate env (nDrive st + 5) fileId em = Inl err"
    by blast+
  have c: "\<not> retryableFailure (permissionsCreate env (nDrive st + 5) fileId em) \<or> (5::nat) = 5"
    by simp
  from a k5 have a2: "(5::nat) < 6"
    and a3: "\<forall>i<5. retryableFailure (permissionsCreate env (nDrive st + i) fileId em)"
    and a1: "\<not> dryRun cfg"
    by simp_all
  from grantPermission_retry[OF a1 a2 a3 c] obtain st' evs where
    g: "grantPermission env cfg fileId em st =
        (case permissionsCreate env (nDrive st + 5) fileId em of
            Inr d \<Rightarrow> Inr (Created d)
          | Inl err \<Rightarrow> Inl \<lparr>wop = ''drive.permissions.create'',
                     wctx = CtxPermission fileId em ''reader'', werr = err\<rparr>, st', evs)"
    and n: "nDrive st' = nDrive st + 5 + 1"
    and t: "retryTrace (PermissionsCreate fileId em ''reader'') 1 5 evs"
    by blast
  from g have g': "grantPermission env cfg fileId em st =
               (Inl \<lparr>wop = ''drive.permissions.create'',
                     wctx = CtxPermission fileId em ''reader'', werr = err\<rparr>, st', evs)"
    unfolding r by simp
  from n have n': "nDrive st' = nDrive st + 6" by simp
  from g' n' t
  show "\<exists>st' evs. grantPermission env cfg fileId em st =
               (Inl \<lparr>wop = ''drive.permissions.create'',
                     wctx = CtxPermission fileId em ''reader'', werr = err\<rparr>, st', evs) \<and>
            nDrive st' = nDrive st + 6 \<and>
            retryTrace (PermissionsCreate fileId em ''reader'') 1 5 evs"
    by blast
next
  fix perms
  assume a: "k < 5 \<and>
      (\<forall>i<k. retryableFailure (permissionsList env (nDrive st + i) fileId))"
    and b: "permissionsList env (nDrive st + k) fileId = Inr perms"
  from a have a2: "k < 5"
    and a3: "\<forall>i<k. retryableFailure (permissionsList env (nDrive st + i) fileId)"
    by simp_all
  from b have c: "\<not> retryableFailure (permissionsList env (nDrive st + k) fileId) \<or> k = 4"
    by (simp add: retryableFailure_def)
  from listPermissionsLoop_retry[OF a2 a3 c, of cfg em rl] obtain st' evs where
    g: "listPermissionsLoop env cfg fileId em rl st =
        (case permissionsList env (nDrive st + k) fileId of
            Inr perms \<Rightarrow> Inr (list_ex (permissionMatches em rl) perms)
          | Inl err \<Rightarrow> Inl \<lparr>wop = ''drive.permissions.list'',
                     wctx = CtxPermission fileId em rl, werr = err\<rparr>, st', evs)"
    and n: "nDrive st' = nDrive st + k + 1"
    and t: "retryTrace (PermissionsList fileId) 1 k evs"
    by blast
  from g have g': "listPermissionsLoop env cfg fileId em rl st = (Inr (list_ex (permissionMatches em rl) perms), st', evs)"
    unfolding b by simp
  from g' n t
  show "\<exists>st' evs. listPermissionsLoop env cfg fileId em rl st = (Inr (list_ex (permissionMatches em rl) perms), st', evs) \<and>
            nDrive st' = nDrive st + k + 1 \<and>
            retryTrace (PermissionsList fileId) 1 k evs"
    by blast
next
  fix err
  assume a: "k < 5 \<and>
      (\<forall>i<k. retryableFailure (permissionsList env (nDrive st + i) fileId))"
    and b: "k = 4 \<and> permissionsList env (nDrive st + k) fileId = Inl err"
  from b have k5: "k = 4" and r: "permissionsList env (nDrive st + 4) fileId = Inl err"
    by blast+
  have c: "\<not> retryableFailure (permissionsList env (nDrive st + 4) fileId) \<or> (4::nat) = 4"
    by simp
  from a k5 have a2: "(4::nat) < 5"
    and a3: "\<forall>i<4. retryableFailure (permissionsList env (nDrive st + i) fileId)"
    by simp_all
  from listPermissionsLoop_retry[OF a2 a3 c, of cfg em rl] obtain st' evs where
    g: "listPermissionsLoop env cfg fileId em rl st =
        (case permissionsList env (nDrive st + 4) fileId of
            Inr perms \<Rightarrow> Inr (list_ex (permissionMatches em rl) perms)
          | Inl err \<Rightarrow> Inl \<lparr>wop = ''drive.permissions.list'',
                     wctx = CtxPermission fileId em rl, werr = err\<rparr>, st', evs)"
    and n: "nDrive st' = nDrive st + 4 + 1"
    and t: "retryTrace (PermissionsList fileId) 1 4 evs"
    by blast
  from g have g': "listPermissionsLoop env cfg fileId em rl st =
               (Inl \<lparr>wop = ''drive.permissions.list'',
                     wctx = CtxPermission fileId em rl, werr = err\<rparr>, st', evs)"
    unfolding r by simp
  from n have n': "nDrive st' = nDrive st + 5" by simp
  from g' n' t
  show "\<exists>st' evs. listPermissionsLoop env cfg fileId em rl st =
               (Inl \<lparr>wop = ''drive.permissions.list'',
                     wctx = CtxPermission fileId em rl, werr = err\<rparr>, st', evs) \<and>
            nDrive st' = nDrive st + 5 \<and>
            retryTrace (PermissionsList fileId) 1 4 evs"
    by blast
next
  fix pg
  assume a: "k < 5 \<and>
      (\<forall>i<k. retryableFailure (filesList env (nDrive st + i) (NameContains name)))"
    and b: "filesList env (nDrive st + k) (NameContains name) = Inr pg"
  from a have a2: "k < 5"
    and a3: "\<forall>i<k. retryableFailure (filesList env (nDrive st + i) (NameContains name))"
    by simp_all
  from b have c: "\<not> retryableFailure (filesList env (nDrive st + k) (NameContains name)) \<or> k = 4"
    by (simp add: retryableFailure_def)
  from globalSearchLoop_retry[OF a2 a3 c, of cfg] obtain st' evs where
    g: "globalSearchLoop env cfg name st =
        (case filesList env (nDrive st + k) (NameContains name) of
            Inr pg \<Rightarrow> Inr (map_option folder_id
                     (find (\<lambda>f. toLowerCase (folder_name f) = toLowerCase name) (files pg)))
          | Inl err \<Rightarrow> Inl \<lparr>wop = ''drive.files.list'',
                     wctx = CtxQuery (NameContains name), werr = err\<rparr>, st', evs)"
    and n: "nDrive st' = nDrive st + k + 1"
    and t: "retryTrace (FilesList (NameContains name)) 1 k evs"
    by blast
  from g have g': "globalSearchLoop env cfg name st = (Inr (map_option folder_id
                     (find (\<lambda>f. toLowerCase (folder_name f) = toLowerCase name) (files pg))), st', evs)"
    unfolding b by simp
  from g' n t
  show "\<exists>st' evs. globalSearchLoop env cfg name st = (Inr (map_option folder_id
                     (find (\<lambda>f. toLowerCase (folder_name f) = toLowerCase name) (files pg))), st', evs) \<and>
            nDrive st' = nDrive st + k + 1 \<and>
            retryTrace (FilesList (NameContains name)) 1 k evs"
    by blast
next
  fix err
  assume a: "k < 5 \<and>
      (\<forall>i<k. retryableFailure (filesList env (nDrive st + i) (NameContains name)))"
    and b: "k = 4 \<and> filesList env (nDrive st + k) (NameContains name) = Inl err"
  from b have k5: "k = 4" and r: "filesList env (nDrive st + 4) (NameContains name) = Inl err"
    by blast+
  have c: "\<not> retryableFailure (filesList env (nDrive st + 4) (NameContains name)) \<or> (4::nat) = 4"
    by simp
  from a k5 have a2: "(4::nat) < 5"
    and a3: "\<forall>i<4. retryableFailure (filesList env (nDrive st + i) (NameContains name))"
    by simp_all
  from globalSearchLoop_retry[OF a2 a3 c, of cfg] obtain st' evs where
    g: "globalSearchLoop env cfg name st =
        (case filesList env (nDrive st + 4) (NameContains name) of
            Inr pg \<Rightarrow> Inr (map_option folder_id
                     (find (\<lambda>f. toLowerCase (folder_name f) = toLowerCase name) (files pg)))
          | Inl err \<Rightarrow> Inl \<lparr>wop = ''drive.files.list'',
                     wctx = CtxQuery (NameContains name), werr = err\<rparr>, st', evs)"
    and n: "nDrive st' = nDrive st + 4 + 1"
    and t: "retryTrace (FilesList (NameContains name)) 1 4 evs"
    by blast
  from g have g': "globalSearchLoop env cfg name st =
               (Inl \<lparr>wop = ''drive.files.list'',
                     wctx = CtxQuery (NameContains name), werr = err\<rparr>, st', evs)"
    unfolding r by simp
  from n have n': "nDrive st' = nDrive st + 5" by simp
  from g' n' t
  show "\<exists>st' evs. globalSearchLoop env cfg name st =
               (Inl \<lparr>wop = ''drive.files.list'',
                     wctx = CtxQuery (NameContains name), werr = err\<rparr>, st', evs) \<and>
            nDrive st' = nDrive st + 5 \<and>
            retryTrace (FilesList (NameContains name)) 1 4 evs"
    by blast
next
  fix ev evs n
  assume a: "retryTrace ev 1 k evs \<and> 1 \<le> n \<and> n \<le> k"
  then have n: "n - 1 < k" and n1: "1 + (n - 1) = n" by auto
  from retryTrace_sleeps[OF conjunct1[OF a] n] obtain d where
    "backoffMs (1 + (n - 1)) \<le> d" "d < backoffMs (1 + (n - 1)) + 500" "Sleep Backoff d \<in> set evs"
    by blast
  then show "\<exists>d. min 60000 (2 ^ n * 1000) \<le> d \<and> d < min 60000 (2 ^ n * 1000) + 500 \<and>
           Sleep Backoff d \<in> set evs"
    unfolding n1 backoffMs_def by blast
qed

theorem retry_policy_witness:
  "(\<exists>st' evs. grantPermission envCreate2 cfgOk ''f1'' ''jane@ex.com'' st0
        = (Inr (Created \<lparr>emailAddress = ''jane@ex.com'', role = ''reader''\<rparr>), st', evs) \<and>
      nDrive st' = nDrive st0 + 2 + 1 \<and>
      retryTrace (PermissionsCreate ''f1'' ''jane@ex.com'' ''reader'') 1 2 evs) \<and>
   (\<exists>st' evs. listPermissionsLoop envList429 cfgOk ''f1'' ''jane@ex.com'' ''reader'' st0
        = (Inl \<lparr>wop = ''drive.permissions.list'',
                 wctx = CtxPermission ''f1'' ''jane@ex.com'' ''reader'', werr = err429\<rparr>, st', evs) \<and>
      nDrive st' = nDrive st0 + 5 \<and> retryTrace (PermissionsList ''f1'') 1 4 evs) \<and>
   (\<exists>st' evs. globalSearchLoop envSearch429 cfgOk ''Jane Doe'' st0
        = (Inl \<lparr>wop = ''drive.files.list'',
                 wctx = CtxQuery (NameContains ''Jane Doe''), werr = err429\<rparr>, st', evs) \<and>
      nDrive st' = nDrive st0 + 5 \<and>
      retryTrace (FilesList (NameContains ''Jane Doe'')) 1 4 evs)"
proof -
  have a: "(2::nat) < 6 \<and> \<not> dryRun cfgOk \<and>
      (\<forall>i<2. retryableFailure (permissionsCreate envCreate2 (nDrive st0 + i) ''f1'' ''jane@ex.com''))"
    by (simp add: cfgOk_def envCreate2_def st0_def retryable_429)
  have b: "permissionsCreate envCreate2 (nDrive st0 + 2) ''f1'' ''jane@ex.com''
             = Inr \<lparr>emailAddress = ''jane@ex.com'', role = ''reader''\<rparr>"
    by (simp add: envCreate2_def st0_def)
  have c: "(4::nat) < 5 \<and>
      (\<forall>i<4. retryableFailure (permissionsList envList429 (nDrive st0 + i) ''f1''))"
    by (simp add: envList429_def retryable_429)
  have d: "(4::nat) = 4 \<and> permissionsList envList429 (nDrive st0 + 4) ''f1'' = Inl err429"
    by (simp add: envList429_def)
  have e: "(4::nat) < 5 \<and>
      (\<forall>i<4. retryableFailure (filesList envSearch429 (nDrive st0 + i) (NameContains ''Jane Doe'')))"
    by (simp add: envSearch429_def retryable_429)
  have f: "(4::nat) = 4 \<and>
      filesList envSearch429 (nDrive st0 + 4) (NameContains ''Jane Doe'') = Inl err429"
    by (simp add: envSearch429_def)
  have 1: "\<exists>st' evs. grantPermission envCreate2 cfgOk ''f1'' ''jane@ex.com'' st0
        = (Inr (Created \<lparr>emailAddress = ''jane@ex.com'', role = ''reader''\<rparr>), st', evs) \<and>
      nDrive st' = nDrive st0 + 2 + 1 \<and>
      retryTrace (PermissionsCreate ''f1'' ''jane@ex.com'' ''reader'') 1 2 evs"
    using retry_policy [of 2 cfgOk envCreate2 st0 "''f1''" "''jane@ex.com''",
        THEN conjunct1, rule_format, OF a, THEN conjunct1, rule_format, OF b] .
  have 2: "\<exists>st' evs. listPermissionsLoop envList429 cfgOk ''f1'' ''jane@ex.com'' ''reader'' st0
        = (Inl \<lparr>wop = ''drive.permissions.list'',
                 wctx = CtxPermission ''f1'' ''jane@ex.com'' ''reader'', werr = err429\<rparr>, st', evs) \<and>
      nDrive st' = nDrive st0 + 5 \<and> retryTrace (PermissionsList ''f1'') 1 4 evs"
    using retry_policy [of 4 _ envList429 st0 "''f1''",
        THEN conjunct2, THEN conjunct1, rule_format, OF c, THEN conjunct2, rule_format, OF d] .
  have 3: "\<exists>st' evs. globalSearchLoop envSearch429 cfgOk ''Jane Doe'' st0
        = (Inl \<lparr>wop = ''drive.files.list'',
                 wctx = CtxQuery (NameContains ''Jane Doe''), werr = err429\<rparr>, st', evs) \<and>
      nDrive st' = nDrive st0 + 5 \<and>
      retryTrace (FilesList (NameContains ''Jane Doe'')) 1 4 evs"
    using retry_policy [where k = 4 and env = envSearch429 and st = st0,
        THEN conjunct2, THEN conjunct2, THEN conjunct1, rule_format, OF e,
        THEN conjunct2, rule_format, OF f] .
  from 1 2 3 show ?thesis by blast
qed

section \<open>The folder search under a parent\<close>

lemma emit_Nil [simp]: "emit [] r = r"
  by (simp add: emit_def split: option.splits)

lemma emit_emit [simp]: "emit e1 (emit e2 r) = emit (e1 @ e2) r"
  by (simp add: emit_def split: option.splits)

lemma emit_Some_eq [simp]: "emit e1 (Some (x, st, e2)) = Some (x, st, e1 @ e2)"
  by (simp add: emit_def)

lemma find_append:
  "find P (xs @ ys) = (case find P xs of Some x \<Rightarrow> Some x | None \<Rightarrow> find P ys)"
  by (induction xs) auto

lemma listsOnly_Nil [simp]: "listsOnly ids []"
  by (simp add: listsOnly_def)

lemma listsOnly_append [simp]: "listsOnly ids (xs @ ys) \<longleftrightarrow> listsOnly ids xs \<and> listsOnly ids ys"
  by (simp add: listsOnly_def)

lemma listsOnly_mono: "listsOnly ids evs \<Longrightarrow> set ids \<subseteq> set ids' \<Longrightarrow> listsOnly ids' evs"
  by (fastforce simp: listsOnly_def list_all_iff)

lemma bfs_phase:
  assumes L: "listingsAre env cfg f0 kids" and d: "d \<le> 3" and n: "f0 \<le> Suc n"
  shows "\<exists>st1 e1. listsOnly ids e1 \<and>
     bfs (length ids + n) env cfg t (map (\<lambda>i. (i, d)) ids @ r) st =
       (case find (\<lambda>f. toLowerCase (folder_name f) = t) (concat (map kids ids)) of
          Some hit \<Rightarrow> Some (Some (folder_id hit), st1, e1)
        | None \<Rightarrow>
            emit e1 (bfs n env cfg t
                       (r @ (if d < 3 then map (\<lambda>c. (folder_id c, d + 1)) (concat (map kids ids))
                             else [])) st1))"
proof (induction ids arbitrary: r st)
  case Nil
  show ?case
    by (rule exI[of _ st], rule exI[of _ "[]"]) simp
next
  case (Cons i ids)
  let ?P = "\<lambda>f. toLowerCase (folder_name f) = t"
  let ?adds = "\<lambda>fs. (if d < 3 then map (\<lambda>c. (folder_id c, d + 1)) fs else [])"
  have fuel: "f0 \<le> Suc (length ids + n)" using n by simp
  from L fuel obtain stA eA where
    ls: "listSubfolders (Suc (length ids + n)) env cfg i st = Some (Inr (kids i), stA, eA)"
    and evA: "list_all (\<lambda>e. isSleep e \<or> (\<exists>tok. e = FilesList (ChildrenOf i tok))) eA"
    unfolding listingsAre_def by blast
  have evA': "listsOnly (i # ids) eA"
    using evA by (fastforce simp: listsOnly_def list_all_iff)
  have notdeep: "\<not> d > maxDepth" using d by (simp add: maxDepth_def)
  have dlt: "d < maxDepth \<longleftrightarrow> d < 3" by (simp add: maxDepth_def)
  show ?case
  proof (cases "find ?P (kids i)")
    case (Some hit)
    have "bfs (length (i # ids) + n) env cfg t (map (\<lambda>i. (i, d)) (i # ids) @ r) st
            = Some (Some (folder_id hit), stA, eA)"
      using ls Some notdeep by simp
    moreover have "find ?P (concat (map kids (i # ids))) = Some hit"
      using Some by (simp add: find_append)
    ultimately show ?thesis
      using evA' by (intro exI[of _ stA] exI[of _ eA]) simp
  next
    case None
    from Cons.IH[of "r @ ?adds (kids i)" stA] obtain st1 e1 where
      ev1: "listsOnly ids e1" and
      ih: "bfs (length ids + n) env cfg t (map (\<lambda>i. (i, d)) ids @ (r @ ?adds (kids i))) stA =
       (case find ?P (concat (map kids ids)) of
          Some hit \<Rightarrow> Some (Some (folder_id hit), st1, e1)
        | None \<Rightarrow>
            emit e1 (bfs n env cfg t
                       ((r @ ?adds (kids i)) @ ?adds (concat (map kids ids))) st1))"
      by blast
    have step: "bfs (length (i # ids) + n) env cfg t (map (\<lambda>i. (i, d)) (i # ids) @ r) st
            = emit eA (bfs (length ids + n) env cfg t
                         (map (\<lambda>i. (i, d)) ids @ (r @ ?adds (kids i))) stA)"
      using ls None notdeep dlt by simp
    have fnd: "find ?P (concat (map kids (i # ids))) = find ?P (concat (map kids ids))"
      using None by (simp add: find_append)
    have q: "(r @ ?adds (kids i)) @ ?adds (concat (map kids ids))
               = r @ ?adds (concat (map kids (i # ids)))"
      by simp
    have ev: "listsOnly (i # ids) (eA @ e1)"
      using evA' ev1 by (auto intro: listsOnly_mono)
    show ?thesis
      apply (rule exI[of _ st1], rule exI[of _ "eA @ e1"])
      using ev step ih fnd q
      by (simp split: option.splits)
  qed
qed


lemma bfs_levels:
  assumes L: "listingsAre env cfg f0 kids" and n: "f0 \<le> Suc n"
  shows "1 \<le> k \<Longrightarrow> k \<le> 4 \<Longrightarrow>
     \<exists>st' evs. listsOnly (listed kids k ids) evs \<and>
       bfs (length (listed kids k ids) + n) env cfg t (map (\<lambda>i. (i, 4 - k)) ids) st =
         Some (map_option folder_id
                 (find (\<lambda>f. toLowerCase (folder_name f) = t) (examined kids k ids)), st', evs)"
proof (induction k arbitrary: ids st)
  case 0
  then show ?case by simp
next
  case (Suc k)
  let ?P = "\<lambda>f. toLowerCase (folder_name f) = t"
  let ?F = "concat (map kids ids)"
  let ?ids' = "map folder_id ?F"
  let ?n' = "length (listed kids k ?ids') + n"
  let ?d = "4 - Suc k"
  have d: "?d \<le> 3" by simp
  have n': "f0 \<le> Suc ?n'" using n by simp
  have len: "length (listed kids (Suc k) ids) + n = length ids + ?n'" by simp
  from bfs_phase[OF L d n', of ids t "[]" st, unfolded append_Nil2 append_Nil]
  obtain st1 e1 where
    ev1: "listsOnly ids e1" and
    ph: "bfs (length ids + ?n') env cfg t (map (\<lambda>i. (i, ?d)) ids) st =
       (case find ?P ?F of
          Some hit \<Rightarrow> Some (Some (folder_id hit), st1, e1)
        | None \<Rightarrow>
            emit e1 (bfs ?n' env cfg t
                       (if ?d < 3 then map (\<lambda>c. (folder_id c, ?d + 1)) ?F else []) st1))"
    by blast
  have ev1': "listsOnly (listed kids (Suc k) ids) e1"
    using ev1 by (rule listsOnly_mono) simp
  show ?case
  proof (cases "find ?P ?F")
    case (Some hit)
    then have "find ?P (examined kids (Suc k) ids) = Some hit" by (simp add: find_append)
    with ph Some ev1' show ?thesis
      unfolding len by (intro exI[of _ st1] exI[of _ e1]) simp
  next
    case None
    then have fnd: "find ?P (examined kids (Suc k) ids) = find ?P (examined kids k ?ids')"
      by (simp add: find_append)
    show ?thesis
    proof (cases "k = 0")
      case True
      with ph None have "bfs (length ids + ?n') env cfg t (map (\<lambda>i. (i, ?d)) ids) st
                           = Some (None, st1, e1)" by simp
      with fnd True ev1' show ?thesis
        unfolding len by (intro exI[of _ st1] exI[of _ e1]) simp
    next
      case False
      then have k1: "1 \<le> k" and k4: "k \<le> 4" and dlt: "?d < 3" and d1: "?d + 1 = 4 - k"
        using Suc.prems by simp_all
      from Suc.IH[OF k1 k4, of ?ids' st1] obtain st' e2 where
        ev2: "listsOnly (listed kids k ?ids') e2" and
        ih: "bfs ?n' env cfg t (map (\<lambda>i. (i, 4 - k)) ?ids') st1 =
               Some (map_option folder_id (find ?P (examined kids k ?ids')), st', e2)"
        by blast
      have q: "(if ?d < 3 then map (\<lambda>c. (folder_id c, ?d + 1)) ?F else [])
                 = map (\<lambda>i. (i, 4 - k)) ?ids'"
        using dlt d1 by (simp add: comp_def)
      have res: "bfs (length ids + ?n') env cfg t (map (\<lambda>i. (i, ?d)) ids) st
               = Some (map_option folder_id (find ?P (examined kids k ?ids')), st', e1 @ e2)"
        using ph None unfolding q ih by simp
      have ev: "listsOnly (listed kids (Suc k) ids) (e1 @ e2)"
        using ev1' ev2 by (auto intro: listsOnly_mono)
      from res fnd ev show ?thesis
        unfolding len by (intro exI[of _ st'] exI[of _ "e1 @ e2"]) simp
    qed
  qed
qed


lemma listingsAre_single_page:
  assumes "\<forall>n parentId tok.
             filesList env n (ChildrenOf parentId tok) = Inr \<lparr>files = kids parentId, nextPageToken = []\<rparr>"
  shows "listingsAre env cfg 1 kids"
  unfolding listingsAre_def
proof (intro allI impI)
  fix fuel parentId st
  assume "1 \<le> (fuel::nat)"
  then obtain m where m: "fuel = Suc m" by (cases fuel) auto
  obtain st1 e1 where t: "throttle env cfg st = (st1, e1)" by (cases "throttle env cfg st")
  have ls: "listSubfolders fuel env cfg parentId st
          = Some (Inr (kids parentId), st1\<lparr>nDrive := nDrive st1 + 1\<rparr>,
                  e1 @ [FilesList (ChildrenOf parentId [])])"
    using assms t by (simp add: m listSubfolders_def)
  have "list_all (\<lambda>e. isSleep e \<or> (\<exists>tok. e = FilesList (ChildrenOf parentId tok)))
          (e1 @ [FilesList (ChildrenOf parentId [])])"
    using throttle_events[OF t] by (auto simp: list_all_iff)
  with ls show "\<exists>st' evs. listSubfolders fuel env cfg parentId st = Some (Inr (kids parentId), st', evs) \<and>
           list_all (\<lambda>e. isSleep e \<or> (\<exists>tok. e = FilesList (ChildrenOf parentId tok))) evs"
    by blast
qed

lemma chain_listings: "listingsAre envChain cfgOk 1 kidsChain"
  by (rule listingsAre_single_page) (simp add: envChain_def)

lemma chain_values:
  "map_option folder_id
     (find (\<lambda>f. toLowerCase (folder_name f) = toLowerCase ''target'') (examined kidsChain 4 [''P'']))
     = Some ''t''"
  "listed kidsChain 4 [''P''] = [''P'', ''a'', ''b'', ''c'']"
  by code_simp+


text \<open>
  C3, as the claim states it, fails: the search lists the children of the folders three levels
  below the parent and matches their names, so it examines, and can return, a folder four levels
  below.  In the chain \<open>P\<close>, \<open>a\<close>, \<open>b\<close>, \<open>c\<close>, \<open>t\<close> the search for \<open>target\<close> under \<open>P\<close> returns \<open>t\<close>, which
  is not among the folders one to three levels below \<open>P\<close>.
\<close>

theorem match_four_levels_below_example:
  "findFolderByName 5 envChain cfgOk ''target'' ''P'' st0 = Some
     (Some ''t'',
      \<lparr>lastApiCallAt = 100070, nDrive = 4, nSheets = 0, nNow = 8, nRandom = 3\<rparr>,
      [FilesList (ChildrenOf ''P'' []), Sleep Throttle 2497,
       FilesList (ChildrenOf ''a'' []), Sleep Throttle 2497,
       FilesList (ChildrenOf ''b'' []), Sleep Throttle 2497,
       FilesList (ChildrenOf ''c'' [])]) \<and>
   map folder_id (examined kidsChain 3 [''P'']) = [''a'', ''b'', ''c'']"
  by code_simp


text \<open>
  C3, amended.  Take a name and a parent, both not empty, and a drive on which every listing of
  a folder's children succeeds and gives the list \<open>kids\<close> of that folder.  With fuel for the
  folders it takes from the queue, \<open>findFolderByName\<close> returns: the id of the first folder, in
  breadth-first order among the folders one to four levels below the parent, whose name is the
  target up to letter case, or \<open>null\<close> when there is none.  It only sleeps and lists folders, and
  the folders whose children it lists are the parent and folders one to three levels below it.
\<close>

theorem folder_search_is_breadth_first:
  assumes "name \<noteq> []" and "parent \<noteq> []"
    and "listingsAre env cfg f0 kids" and "f0 \<le> Suc n"
  shows "\<exists>st' evs.
     findFolderByName (length (listed kids 4 [parent]) + n) env cfg name parent st =
       Some (map_option folder_id
               (find (\<lambda>f. toLowerCase (folder_name f) = toLowerCase name)
                  (examined kids 4 [parent])), st', evs) \<and>
     list_all (\<lambda>e. isSleep e \<or> isFilesList e) evs \<and>
     (\<forall>parentId tok. FilesList (ChildrenOf parentId tok) \<in> set evs \<longrightarrow>
        parentId \<in> set (listed kids 4 [parent]))"
proof -
  from bfs_levels[OF assms(3,4), of 4 "[parent]" "toLowerCase name" st]
  obtain st' evs where
    ev: "listsOnly (listed kids 4 [parent]) evs" and
    r: "bfs (length (listed kids 4 [parent]) + n) env cfg (toLowerCase name) [(parent, 0)] st =
         Some (map_option folder_id
                 (find (\<lambda>f. toLowerCase (folder_name f) = toLowerCase name)
                    (examined kids 4 [parent])), st', evs)"
    by auto
  have f: "findFolderByName (length (listed kids 4 [parent]) + n) env cfg name parent st =
       Some (map_option folder_id
               (find (\<lambda>f. toLowerCase (folder_name f) = toLowerCase name)
                  (examined kids 4 [parent])), st', evs)"
    using assms(1,2) r by (simp add: findFolderByName_def)
  have e1: "list_all (\<lambda>e. isSleep e \<or> isFilesList e) evs"
    using ev by (auto simp: listsOnly_def list_all_iff)
  have e2: "\<forall>parentId tok. FilesList (ChildrenOf parentId tok) \<in> set evs \<longrightarrow>
        parentId \<in> set (listed kids 4 [parent])"
    using ev by (auto simp: listsOnly_def list_all_iff)
  from f e1 e2 show ?thesis by blast
qed


theorem folder_search_is_breadth_first_witness:
  "\<exists>st' evs.
     findFolderByName 4 envChain cfgOk ''target'' ''P'' st0 = Some (Some ''t'', st', evs) \<and>
     list_all (\<lambda>e. isSleep e \<or> isFilesList e) evs \<and>
     (\<forall>parentId tok. FilesList (ChildrenOf parentId tok) \<in> set evs \<longrightarrow>
        parentId \<in> set [''P'', ''a'', ''b'', ''c''])"
proof -
  have h1: "''target'' \<noteq> []" and h2: "''P'' \<noteq> []" by simp_all
  have h4: "(1::nat) \<le> Suc 0" by simp
  have len: "length [''P'', ''a'', ''b'', ''c''] + 0 = (4::nat)" by simp
  from folder_search_is_breadth_first [OF h1 h2 chain_listings h4, of st0]
  show ?thesis unfolding chain_values len .
qed

end
